theory Spec2Isabelle
  imports Main "HOL-Library.Word" "HOL-Library.Sublist"
begin

section \<open>JavaScript strings\<close>

text \<open>
  A JavaScript string is a sequence of 16-bit code units.  String literals of the
  source are written \<open>js ''...''\<close>; all of them are ASCII.
\<close>

type_synonym jschar = "16 word"
type_synonym jsstring = "jschar list"

definition js :: "string \<Rightarrow> jsstring" where
  "js s = map of_char s"

definition LF :: jschar where
  "LF = 10"

definition CR :: jschar where
  "CR = 13"

text \<open>
  The characters matched by \<open>\s\<close> and removed by \<open>String.prototype.trim\<close>:
  WhiteSpace and LineTerminator of ECMAScript (TAB, LF, VT, FF, CR, SP, NBSP, U+1680,
  U+2000 to U+200A, U+2028, U+2029, U+202F, U+205F, U+3000, U+FEFF).
\<close>

definition isWhiteSpace :: "jschar \<Rightarrow> bool" where
  "isWhiteSpace c \<longleftrightarrow>
     c = 9 \<or> c = 10 \<or> c = 11 \<or> c = 12 \<or> c = 13 \<or> c = 32 \<or> c = 160 \<or> c = 5760 \<or>
     (8192 \<le> c \<and> c \<le> 8202) \<or> c = 8232 \<or> c = 8233 \<or> c = 8239 \<or> c = 8287 \<or>
     c = 12288 \<or> c = 65279"

definition isDigit :: "jschar \<Rightarrow> bool" where
  "isDigit c \<longleftrightarrow> 48 \<le> c \<and> c \<le> 57"

text \<open>
  Canonicalize of ECMAScript for a pattern without the \<open>u\<close> flag, as far as a
  comparison with an ASCII pattern character needs it: an ASCII letter goes to its upper
  case; a code unit from 128 on is never sent below 128, so that it is enough to leave
  it alone.
\<close>

definition canonicalize :: "jschar \<Rightarrow> jschar" where
  "canonicalize c = (if 97 \<le> c \<and> c \<le> 122 then c - 32 else c)"

definition char_eq :: "bool \<Rightarrow> jschar \<Rightarrow> jschar \<Rightarrow> bool" where
  "char_eq ignoreCase p c = (if ignoreCase then canonicalize p = canonicalize c else p = c)"

definition trim :: "jsstring \<Rightarrow> jsstring" where
  "trim s = rev (dropWhile isWhiteSpace (rev (dropWhile isWhiteSpace s)))"

fun endsWith :: "jsstring \<Rightarrow> jsstring \<Rightarrow> bool" where
  "endsWith s w = (length w \<le> length s \<and> drop (length s - length w) s = w)"

text \<open>\<open>content.split("\n")\<close>: the pieces between the line feeds, at least one.\<close>

fun split_from :: "jsstring \<Rightarrow> jsstring \<Rightarrow> jsstring list" where
  "split_from cur [] = [cur]"
| "split_from cur (c # cs) =
     (if c = LF then cur # split_from [] cs else split_from (cur @ [c]) cs)"

definition split_lines :: "jsstring \<Rightarrow> jsstring list" where
  "split_lines content = split_from [] content"

text \<open>A number in a template literal: its decimal digits.\<close>

function numberToString :: "nat \<Rightarrow> jsstring" where
  "numberToString n =
     (if n < 10 then [of_nat (48 + n)]
      else numberToString (n div 10) @ [of_nat (48 + n mod 10)])"
  by pat_completeness auto
termination
  by (relation "measure (\<lambda>n. n)") auto

declare numberToString.simps [simp del]

section \<open>Regular expressions\<close>

text \<open>
  The syntax of the patterns of the rule set: pattern characters, the classes
  \<open>\s\<close>, \<open>\d\<close>, \<open>[...]\<close> and \<open>[^...]\<close>, sequence, alternative, the greedy
  quantifiers \<open>*\<close> and \<open>+\<close>, a group and the negative lookahead \<open>(?!...)\<close>.
\<close>

datatype cclass = Space | Digit | OneOf jsstring | NoneOf jsstring

datatype regex =
    Str jsstring
  | Cls cclass
  | Seq regex regex
  | Alt regex regex
  | Star regex
  | Plus regex
  | Group regex
  | NegLookahead regex

fun seqs :: "regex list \<Rightarrow> regex" where
  "seqs [] = Str []"
| "seqs [r] = r"
| "seqs (r # rs) = Seq r (seqs rs)"

fun alts :: "regex list \<Rightarrow> regex" where
  "alts [] = NegLookahead (Str [])"
| "alts [r] = r"
| "alts (r # rs) = Alt r (alts rs)"

fun in_class :: "cclass \<Rightarrow> jschar \<Rightarrow> bool" where
  "in_class Space c = isWhiteSpace c"
| "in_class Digit c = isDigit c"
| "in_class (OneOf cs) c = (c \<in> set cs)"
| "in_class (NoneOf cs) c = (c \<notin> set cs)"

fun str_match :: "bool \<Rightarrow> jsstring \<Rightarrow> jsstring \<Rightarrow> jsstring option" where
  "str_match ic [] s = Some s"
| "str_match ic (p # ps) [] = None"
| "str_match ic (p # ps) (c # cs) = (if char_eq ic p c then str_match ic ps cs else None)"

text \<open>
  The iterations of a greedy \<open>*\<close>: one more iteration first, then stopping here.  An
  iteration that consumes nothing is rejected, as RepeatMatcher does.
\<close>

function star_rest :: "(jsstring \<Rightarrow> jsstring list) \<Rightarrow> jsstring \<Rightarrow> jsstring list" where
  "star_rest m s =
     concat (map (star_rest m) (filter (\<lambda>t. length t < length s) (m s))) @ [s]"
  by pat_completeness auto
termination
  by (relation "measure (\<lambda>(m, s). length s)") auto

declare star_rest.simps [simp del]

text \<open>
  \<open>match_rest ic r s\<close>: the matches of \<open>r\<close> at the start of \<open>s\<close>, each given by
  the input left after it, in the order in which backtracking tries them.  With the
  \<open>i\<close> flag a pattern character is compared through \<open>canonicalize\<close>.  A class
  is compared as it is: the classes of the rule set (whitespace, digits, the two quotes,
  \<open>@\<close>) have no member with another case, and no other character canonicalizes to
  one of their members.
\<close>

fun match_rest :: "bool \<Rightarrow> regex \<Rightarrow> jsstring \<Rightarrow> jsstring list" where
  "match_rest ic (Str w) s = (case str_match ic w s of None \<Rightarrow> [] | Some t \<Rightarrow> [t])"
| "match_rest ic (Cls C) s =
     (case s of [] \<Rightarrow> [] | c # t \<Rightarrow> if in_class C c then [t] else [])"
| "match_rest ic (Seq a b) s = concat (map (match_rest ic b) (match_rest ic a s))"
| "match_rest ic (Alt a b) s = match_rest ic a s @ match_rest ic b s"
| "match_rest ic (Star a) s = star_rest (\<lambda>t. match_rest ic a t) s"
| "match_rest ic (Plus a) s =
     concat (map (star_rest (\<lambda>t. match_rest ic a t)) (match_rest ic a s))"
| "match_rest ic (Group a) s = match_rest ic a s"
| "match_rest ic (NegLookahead a) s = (if match_rest ic a s = [] then [s] else [])"

text \<open>
  A RegExp object.  \<open>lastIndex\<close> is its mutable state, read and written by
  \<open>test\<close> when the \<open>g\<close> or the \<open>y\<close> flag is set.
\<close>

record RegExp =
  source :: regex
  ignoreCase :: bool
  global :: bool
  sticky :: bool
  lastIndex :: nat

text \<open>
  The search of RegExpBuiltinExec from the input \<open>s\<close> on: the first start position
  with a match, and the first match there; with the \<open>y\<close> flag only the first
  position is tried.  The patterns have no anchor and no lookbehind, so that a match
  depends on the input from its start position on only.
\<close>

fun search :: "(jsstring \<Rightarrow> jsstring list) \<Rightarrow> bool \<Rightarrow> jsstring \<Rightarrow> jsstring option" where
  "search m st s =
     (case m s of
        t # _ \<Rightarrow> Some t
      | [] \<Rightarrow> if st then None else (case s of [] \<Rightarrow> None | _ # s' \<Rightarrow> search m st s'))"

definition test :: "RegExp \<Rightarrow> jsstring \<Rightarrow> bool \<times> RegExp" where
  "test R S =
     (let gy = (global R \<or> sticky R);
          start = (if gy then lastIndex R else 0)
      in if length S < start then (False, if gy then R\<lparr>lastIndex := 0\<rparr> else R)
         else (case search (match_rest (ignoreCase R) (source R)) (sticky R) (drop start S) of
                 None \<Rightarrow> (False, if gy then R\<lparr>lastIndex := 0\<rparr> else R)
               | Some t \<Rightarrow> (True, if gy then R\<lparr>lastIndex := length S - length t\<rparr> else R)))"

text \<open>The literal \<open>/src/\<close> or \<open>/src/i\<close>.\<close>

definition regexp_literal :: "regex \<Rightarrow> bool \<Rightarrow> RegExp" where
  "regexp_literal r ic =
     \<lparr>source = r, ignoreCase = ic, global = False, sticky = False, lastIndex = 0\<rparr>"

section \<open>The rule set\<close>

datatype SecuritySeverity = Critical | High | Medium | Low

record SecurityRule =
  rule_id :: jsstring
  rule_description :: jsstring
  pattern :: RegExp
  rule_severity :: SecuritySeverity
  rule_remediation :: jsstring

text \<open>The two quote characters of the class \<open>['"]\<close>.\<close>

definition quotes :: jsstring where
  "quotes = [39, 34]"

text \<open>\<open>/(password|token|key|secret):\s*['"][^'"]+['"]/i\<close>\<close>

definition secrets_source :: regex where
  "secrets_source =
     seqs [Group (alts [Str (js ''password''), Str (js ''token''), Str (js ''key''),
                        Str (js ''secret'')]),
           Str (js '':''), Star (Cls Space), Cls (OneOf quotes),
           Plus (Cls (NoneOf quotes)), Cls (OneOf quotes)]"

text \<open>\<open>/uses:\s*([^@]+)@(main|master|latest|\d+)/i\<close>\<close>

definition pin_source :: regex where
  "pin_source =
     seqs [Str (js ''uses:''), Star (Cls Space), Group (Plus (Cls (NoneOf (js ''@'')))),
           Str (js ''@''),
           Group (alts [Str (js ''main''), Str (js ''master''), Str (js ''latest''),
                        Plus (Cls Digit)])]"

text \<open>\<open>/uses:\s*(?!actions\/|\.\/)/\<close>\<close>

definition third_party_source :: regex where
  "third_party_source =
     seqs [Str (js ''uses:''), Star (Cls Space),
           NegLookahead (alts [Str (js ''actions/''), Str (js ''./'')])]"

text \<open>\<open>/\$\{\{\s*github\.event\.issue\.title\s*\}\}/\<close>\<close>

definition injection_source :: regex where
  "injection_source =
     seqs [Str (js ''${{''), Star (Cls Space), Str (js ''github.event.issue.title''),
           Star (Cls Space), Str (js ''}}'')]"

definition no_plaintext_secrets :: SecurityRule where
  "no_plaintext_secrets =
     \<lparr>rule_id = js ''no-plaintext-secrets'',
      rule_description = js ''Avoid hardcoded secrets in workflows'',
      pattern = regexp_literal secrets_source True,
      rule_severity = Critical,
      rule_remediation = js ''Use GitHub Secrets (secrets.*) instead of hardcoded values''\<rparr>"

definition pin_actions_versions :: SecurityRule where
  "pin_actions_versions =
     \<lparr>rule_id = js ''pin-actions-versions'',
      rule_description = js ''Pin actions to a specific SHA'',
      pattern = regexp_literal pin_source True,
      rule_severity = High,
      rule_remediation =
        js ''Pin actions to a full length commit SHA instead of using branch names or version tags''\<rparr>"

definition third_party_action_review :: SecurityRule where
  "third_party_action_review =
     \<lparr>rule_id = js ''third-party-action-review'',
      rule_description = js ''Review third-party actions'',
      pattern = regexp_literal third_party_source False,
      rule_severity = Medium,
      rule_remediation =
        js ''Review third-party actions before using them or consider creating internal actions''\<rparr>"

definition script_injection :: SecurityRule where
  "script_injection =
     \<lparr>rule_id = js ''script-injection'',
      rule_description = js ''Potential script injection via user inputs'',
      pattern = regexp_literal injection_source False,
      rule_severity = High,
      rule_remediation = js ''Sanitize user inputs before using them in scripts''\<rparr>"

definition securityRules :: "SecurityRule list" where
  "securityRules =
     [no_plaintext_secrets, pin_actions_versions, third_party_action_review, script_injection]"

section \<open>The scanner\<close>

record WorkflowSecurityIssue =
  file_name :: jsstring
  line :: nat
  rule :: jsstring
  description :: jsstring
  severity :: SecuritySeverity
  remediation :: jsstring
  content :: jsstring

record WorkflowScanResult =
  repository :: jsstring
  success :: bool
  message :: jsstring
  issues :: "WorkflowSecurityIssue list"

text \<open>
  What \<open>octokit.repos.getContent\<close> answers.  An entry of a directory listing has a
  name, a path and a type.  The data of an answer is an array of entries, an object with
  a \<open>content\<close> field, given here by \<open>Buffer.from(content, "base64").toString()\<close>,
  which is a total function of the field, or an object without that field.  A call that
  throws is \<open>Inl\<close> of the text that the handler prints for the thrown value
  (\<open>error.message\<close> or \<open>String(error)\<close>).
\<close>

record entry =
  name :: jsstring
  path :: jsstring
  type :: jsstring

datatype content_data = Directory "entry list" | WithContent jsstring | WithoutContent

record WorkflowsScanner =
  getContent :: "jsstring \<Rightarrow> jsstring \<Rightarrow> jsstring \<Rightarrow> jsstring + content_data"
  owner :: jsstring

text \<open>
  The rule set is a constant of the module whose RegExp objects are mutable, so each
  operation that tests a pattern takes the rules and returns them as it leaves them.
\<close>

definition make_issue :: "jsstring \<Rightarrow> nat \<Rightarrow> SecurityRule \<Rightarrow> jsstring \<Rightarrow> WorkflowSecurityIssue" where
  "make_issue filename lineNumber r ln =
     \<lparr>file_name = filename, line = lineNumber, rule = rule_id r,
      description = rule_description r, severity = rule_severity r,
      remediation = rule_remediation r, content = trim ln\<rparr>"

fun rules_loop ::
  "jsstring \<Rightarrow> nat \<Rightarrow> jsstring \<Rightarrow> SecurityRule list \<Rightarrow> WorkflowSecurityIssue list
     \<Rightarrow> WorkflowSecurityIssue list \<times> SecurityRule list" where
  "rules_loop filename lineNumber ln [] found = (found, [])"
| "rules_loop filename lineNumber ln (r # rs) found =
     (let (matched, re) = test (pattern r) ln;
          found' = (if matched then found @ [make_issue filename lineNumber r ln] else found);
          (found'', rs') = rules_loop filename lineNumber ln rs found'
      in (found'', r\<lparr>pattern := re\<rparr> # rs'))"

fun lines_loop ::
  "jsstring \<Rightarrow> nat \<Rightarrow> jsstring list \<Rightarrow> SecurityRule list \<Rightarrow> WorkflowSecurityIssue list
     \<Rightarrow> WorkflowSecurityIssue list \<times> SecurityRule list" where
  "lines_loop filename i [] rules found = (found, rules)"
| "lines_loop filename i (ln # lns) rules found =
     (let (found', rules') = rules_loop filename (i + 1) ln rules found
      in lines_loop filename (i + 1) lns rules' found')"

definition analyzeWorkflow ::
  "SecurityRule list \<Rightarrow> jsstring \<Rightarrow> jsstring
     \<Rightarrow> WorkflowSecurityIssue list \<times> SecurityRule list" where
  "analyzeWorkflow rules filename text = lines_loop filename 0 (split_lines text) rules []"

definition is_workflow_file :: "entry \<Rightarrow> bool" where
  "is_workflow_file f \<longleftrightarrow>
     \<not> (type f \<noteq> js ''file'' \<or>
        (\<not> endsWith (name f) (js ''.yml'') \<and> \<not> endsWith (name f) (js ''.yaml'')))"

fun files_loop ::
  "WorkflowsScanner \<Rightarrow> jsstring \<Rightarrow> entry list \<Rightarrow> SecurityRule list
     \<Rightarrow> WorkflowSecurityIssue list
     \<Rightarrow> (jsstring + WorkflowSecurityIssue list) \<times> SecurityRule list" where
  "files_loop this repo [] rules found = (Inr found, rules)"
| "files_loop this repo (f # fs) rules found =
     (if \<not> is_workflow_file f then files_loop this repo fs rules found
      else (case getContent this (owner this) repo (path f) of
              Inl err \<Rightarrow> (Inl err, rules)
            | Inr (WithContent decodedContent) \<Rightarrow>
                (let (fileIssues, rules') = analyzeWorkflow rules (name f) decodedContent
                 in files_loop this repo fs rules' (found @ fileIssues))
            | Inr _ \<Rightarrow> files_loop this repo fs rules found))"

text \<open>The body of the \<open>try\<close> block: \<open>Inl\<close> is a thrown error.\<close>

definition scanRepository_try ::
  "WorkflowsScanner \<Rightarrow> SecurityRule list \<Rightarrow> jsstring
     \<Rightarrow> (jsstring + WorkflowScanResult) \<times> SecurityRule list" where
  "scanRepository_try this rules repo =
     (case getContent this (owner this) repo (js ''.github/workflows'') of
        Inl err \<Rightarrow> (Inl err, rules)
      | Inr (Directory workflowFiles) \<Rightarrow>
          (case files_loop this repo workflowFiles rules [] of
             (Inl err, rules') \<Rightarrow> (Inl err, rules')
           | (Inr found, rules') \<Rightarrow>
               (Inr \<lparr>repository = repo, success = True,
                     message =
                       (if length found > 0
                        then js ''Found '' @ numberToString (length found) @
                             js '' security issues in workflows''
                        else js ''No security issues found in workflows''),
                     issues = found\<rparr>, rules'))
      | Inr _ \<Rightarrow>
          (Inr \<lparr>repository = repo, success = False,
                message = js ''No workflows directory found or not a directory'',
                issues = []\<rparr>, rules))"

text \<open>The promise that an \<open>async\<close> method returns is fulfilled or rejected.\<close>

datatype 'a promise = Fulfilled 'a | Rejected jsstring

definition scanRepository ::
  "WorkflowsScanner \<Rightarrow> SecurityRule list \<Rightarrow> jsstring
     \<Rightarrow> WorkflowScanResult promise \<times> SecurityRule list" where
  "scanRepository this rules repo =
     (case scanRepository_try this rules repo of
        (Inr result, rules') \<Rightarrow> (Fulfilled result, rules')
      | (Inl err, rules') \<Rightarrow>
          (Fulfilled \<lparr>repository = repo, success = False,
                      message = js ''Error scanning workflows: '' @ err,
                      issues = []\<rparr>, rules'))"

section \<open>The report\<close>

fun formatIssues_loop :: "WorkflowSecurityIssue list \<Rightarrow> jsstring \<Rightarrow> jsstring" where
  "formatIssues_loop [] result = result"
| "formatIssues_loop (issue # rest) result =
     formatIssues_loop rest
       (result
        @ (js ''### '' @ rule issue @ js ''\<newline>\<newline>'')
        @ (js ''**File**: `'' @ file_name issue @ js ''` (line '' @ numberToString (line issue)
             @ js '')\<newline>\<newline>'')
        @ (js ''**Description**: '' @ description issue @ js ''\<newline>\<newline>'')
        @ (js ''**Code**:\<newline>```yaml\<newline>'' @ content issue
             @ js ''\<newline>```\<newline>\<newline>'')
        @ (js ''**Remediation**: '' @ remediation issue @ js ''\<newline>\<newline>'')
        @ js ''---\<newline>\<newline>'')"

definition formatIssues :: "WorkflowSecurityIssue list \<Rightarrow> jsstring" where
  "formatIssues found = formatIssues_loop found []"

definition generateReport :: "WorkflowScanResult \<Rightarrow> jsstring" where
  "generateReport scanResult =
     (let report = js ''# Workflow Security Scan Report for '' @ repository scanResult
                     @ js ''\<newline>\<newline>''
      in if \<not> success scanResult
         then report @ (js ''## Error\<newline>\<newline>'' @ message scanResult
                          @ js ''\<newline>\<newline>'')
         else if length (issues scanResult) = 0
         then report @
                js ''## Summary\<newline>\<newline>No security issues found in workflows. Good job!\<newline>\<newline>''
         else
           (let criticalIssues = filter (\<lambda>issue. severity issue = Critical) (issues scanResult);
                highIssues = filter (\<lambda>issue. severity issue = High) (issues scanResult);
                mediumIssues = filter (\<lambda>issue. severity issue = Medium) (issues scanResult);
                lowIssues = filter (\<lambda>issue. severity issue = Low) (issues scanResult);
                report = report @ js ''## Summary\<newline>\<newline>'';
                report = report @ (js ''- Critical: '' @ numberToString (length criticalIssues)
                                     @ js ''\<newline>'');
                report = report @ (js ''- High: '' @ numberToString (length highIssues)
                                     @ js ''\<newline>'');
                report = report @ (js ''- Medium: '' @ numberToString (length mediumIssues)
                                     @ js ''\<newline>'');
                report = report @ (js ''- Low: '' @ numberToString (length lowIssues)
                                     @ js ''\<newline>\<newline>'');
                report = (if length criticalIssues > 0
                          then report @ js ''## Critical Issues\<newline>\<newline>''
                                 @ formatIssues criticalIssues
                          else report);
                report = (if length highIssues > 0
                          then report @ js ''## High Issues\<newline>\<newline>''
                                 @ formatIssues highIssues
                          else report);
                report = (if length mediumIssues > 0
                          then report @ js ''## Medium Issues\<newline>\<newline>''
                                 @ formatIssues mediumIssues
                          else report);
                report = (if length lowIssues > 0
                          then report @ js ''## Low Issues\<newline>\<newline>''
                                 @ formatIssues lowIssues
                          else report)
            in report))"

section \<open>Auxiliary notions for the statements\<close>

text \<open>No rule of the list carries the \<open>g\<close> or the \<open>y\<close> flag.\<close>

definition stateless :: "SecurityRule list \<Rightarrow> bool" where
  "stateless rules = list_all (\<lambda>r. \<not> global (pattern r) \<and> \<not> sticky (pattern r)) rules"

text \<open>The findings of one line: one per rule whose pattern matches, in the order of the rules.\<close>

definition line_findings ::
  "SecurityRule list \<Rightarrow> jsstring \<Rightarrow> nat \<Rightarrow> jsstring \<Rightarrow> WorkflowSecurityIssue list" where
  "line_findings rules filename lineNumber ln =
     map (\<lambda>r. make_issue filename lineNumber r ln)
       (filter (\<lambda>r. fst (test (pattern r) ln)) rules)"

text \<open>The findings of one file: those of its lines, numbered from 1, in the order of the lines.\<close>

definition file_findings ::
  "SecurityRule list \<Rightarrow> jsstring \<Rightarrow> jsstring \<Rightarrow> WorkflowSecurityIssue list" where
  "file_findings rules filename text =
     concat (map (\<lambda>(i, ln). line_findings rules filename (i + 1) ln)
               (enumerate 0 (split_lines text)))"

text \<open>The two kinds of call that a scan makes: for the directory and for one of its entries.\<close>

definition listing :: "WorkflowsScanner \<Rightarrow> jsstring \<Rightarrow> jsstring + content_data" where
  "listing this repo = getContent this (owner this) repo (js ''.github/workflows'')"

definition fetch :: "WorkflowsScanner \<Rightarrow> jsstring \<Rightarrow> entry \<Rightarrow> jsstring + content_data" where
  "fetch this repo f = getContent this (owner this) repo (path f)"

text \<open>The findings of one entry of the directory: those of its text, when it has one.\<close>

definition entry_findings ::
  "WorkflowsScanner \<Rightarrow> SecurityRule list \<Rightarrow> jsstring \<Rightarrow> entry \<Rightarrow> WorkflowSecurityIssue list" where
  "entry_findings this rules repo f =
     (case fetch this repo f of
        Inr (WithContent text) \<Rightarrow> file_findings rules (name f) text
      | _ \<Rightarrow> [])"

text \<open>The errors of the workflow files whose retrieval throws, in the order of the directory.\<close>

definition failures :: "WorkflowsScanner \<Rightarrow> jsstring \<Rightarrow> entry list \<Rightarrow> jsstring list" where
  "failures this repo fs =
     concat (map (\<lambda>f. case fetch this repo f of Inl err \<Rightarrow> [err] | Inr _ \<Rightarrow> [])
               (filter is_workflow_file fs))"

text \<open>Three sources of workflow files, for the examples.\<close>

definition failing_scanner :: WorkflowsScanner where
  "failing_scanner =
     \<lparr>getContent = (\<lambda>ow repo p. Inl (js ''Not Found'')), owner = js ''octo''\<rparr>"

definition empty_scanner :: WorkflowsScanner where
  "empty_scanner =
     \<lparr>getContent = (\<lambda>ow repo p. Inr (Directory [])), owner = js ''octo''\<rparr>"

definition example_entry :: entry where
  "example_entry = \<lparr>name = js ''ci.yml'', path = js ''w/ci.yml'', type = js ''file''\<rparr>"

definition example_scanner :: WorkflowsScanner where
  "example_scanner =
     \<lparr>getContent = (\<lambda>ow repo p.
         if p = js ''.github/workflows'' then Inr (Directory [example_entry])
         else Inr (WithContent (js ''uses: a@1''))),
       owner = js ''octo''\<rparr>"

text \<open>
  The parts of a report: the entry of one finding, the findings of one severity, and the
  section of a severity, which is empty when the severity has no finding.
\<close>

definition issue_entry :: "WorkflowSecurityIssue \<Rightarrow> jsstring" where
  "issue_entry issue =
     js ''### '' @ rule issue @ js ''\<newline>\<newline>'' @
     js ''**File**: `'' @ file_name issue @ js ''` (line '' @ numberToString (line issue) @
       js '')\<newline>\<newline>'' @
     js ''**Description**: '' @ description issue @ js ''\<newline>\<newline>'' @
     js ''**Code**:\<newline>```yaml\<newline>'' @ content issue @
       js ''\<newline>```\<newline>\<newline>'' @
     js ''**Remediation**: '' @ remediation issue @ js ''\<newline>\<newline>'' @
     js ''---\<newline>\<newline>''"

definition of_severity ::
  "SecuritySeverity \<Rightarrow> WorkflowSecurityIssue list \<Rightarrow> WorkflowSecurityIssue list" where
  "of_severity s found = filter (\<lambda>issue. severity issue = s) found"

definition severity_section :: "jsstring \<Rightarrow> WorkflowSecurityIssue list \<Rightarrow> jsstring" where
  "severity_section heading found =
     (if found = [] then [] else heading @ concat (map issue_entry found))"

text \<open>A result with one finding, for the examples.\<close>

definition example_result :: WorkflowScanResult where
  "example_result =
     \<lparr>repository = js ''demo'', success = True,
      message = js ''Found 1 security issues in workflows'',
      issues = [\<lparr>file_name = js ''ci.yml'', line = 3, rule = js ''pin-actions-versions'',
                 description = js ''Pin actions to a specific SHA'', severity = High,
                 remediation = js ''Pin it'', content = js ''uses: a@1''\<rparr>]\<rparr>"

text \<open>The number that a string of decimal digits denotes.\<close>

definition decimal_value :: "jsstring \<Rightarrow> nat" where
  "decimal_value s = foldl (\<lambda>a d. 10 * a + (unat d - 48)) 0 s"

section \<open>Auxiliary notions for the patterns\<close>

text \<open>
  The strings that a pattern without lookahead matches, and the patterns without
  lookahead.  \<open>after L s\<close> is what is left of \<open>s\<close> after a prefix in \<open>L\<close>.
\<close>

fun lang :: "bool \<Rightarrow> regex \<Rightarrow> jsstring set" where
  "lang ic (Str w) = {x. list_all2 (char_eq ic) w x}"
| "lang ic (Cls C) = {[c] | c. in_class C c}"
| "lang ic (Seq a b) = {x @ y | x y. x \<in> lang ic a \<and> y \<in> lang ic b}"
| "lang ic (Alt a b) = lang ic a \<union> lang ic b"
| "lang ic (Star a) = {concat xs | xs. set xs \<subseteq> lang ic a}"
| "lang ic (Plus a) = {x @ concat xs | x xs. x \<in> lang ic a \<and> set xs \<subseteq> lang ic a}"
| "lang ic (Group a) = lang ic a"
| "lang ic (NegLookahead a) = {}"

fun plain :: "regex \<Rightarrow> bool" where
  "plain (Str w) = True"
| "plain (Cls C) = True"
| "plain (Seq a b) = (plain a \<and> plain b)"
| "plain (Alt a b) = (plain a \<and> plain b)"
| "plain (Star a) = plain a"
| "plain (Plus a) = plain a"
| "plain (Group a) = plain a"
| "plain (NegLookahead a) = False"

definition after :: "jsstring set \<Rightarrow> jsstring \<Rightarrow> jsstring set" where
  "after L s = {t. \<exists>x\<in>L. s = x @ t}"

text \<open>No string of the set is empty or ends with the character.\<close>

definition ends_ok :: "jschar \<Rightarrow> jsstring set \<Rightarrow> bool" where
  "ends_ok c L \<longleftrightarrow> (\<forall>x\<in>L. x \<noteq> [] \<and> last x \<noteq> c)"

text \<open>Each carriage return of the text is immediately followed by a line feed.\<close>

fun crlf_only :: "jsstring \<Rightarrow> bool" where
  "crlf_only [] = True"
| "crlf_only [c] = (c \<noteq> CR)"
| "crlf_only (c # d # cs) = ((c = CR \<longrightarrow> d = LF) \<and> crlf_only (d # cs))"

text \<open>
  The line holds one of the four words, letters compared without case, then a colon,
  whitespace, a quote, one or more characters that are no quotes, and a quote.
\<close>

definition hardcoded_secret :: "jsstring \<Rightarrow> bool" where
  "hardcoded_secret ln \<longleftrightarrow>
     (\<exists>p k ws q1 body q2 rest.
        ln = p @ k @ js '':'' @ ws @ [q1] @ body @ [q2] @ rest \<and>
        (map canonicalize k = map canonicalize (js ''password'') \<or>
         map canonicalize k = map canonicalize (js ''token'') \<or>
         map canonicalize k = map canonicalize (js ''key'') \<or>
         map canonicalize k = map canonicalize (js ''secret'')) \<and>
        (\<forall>c\<in>set ws. isWhiteSpace c) \<and>
        q1 \<in> set quotes \<and> body \<noteq> [] \<and> (\<forall>c\<in>set body. c \<notin> set quotes) \<and>
        q2 \<in> set quotes)"

text \<open>Lines for the examples.\<close>

definition quoted_line :: jsstring where
  \<open>quoted_line = js ''api_KEY: "abc"''\<close>

definition key_id_line :: jsstring where
  \<open>key_id_line = js ''key_id: "abc"''\<close>

definition checkout_v3 :: jsstring where
  "checkout_v3 = js ''uses: actions/checkout@v3''"



section \<open>The loops of a scan, for rules without state\<close>

lemma js_append: "js a @ js b = js (a @ b)"
  by (simp add: js_def)

lemma test_stateless:
  assumes "\<not> global R" "\<not> sticky R"
  shows "snd (test R S) = R"
  using assms by (simp add: test_def Let_def split: option.splits)

lemma rules_loop_stateless:
  assumes "stateless rs"
  shows "rules_loop fn n l rs found = (found @ line_findings rs fn n l, rs)"
  using assms
proof (induction rs arbitrary: found)
  case Nil
  show ?case by (simp add: line_findings_def)
next
  case (Cons r rs)
  from Cons.prems have r: "\<not> global (pattern r)" "\<not> sticky (pattern r)" and rs: "stateless rs"
    by (simp_all add: stateless_def)
  obtain b re where t: "test (pattern r) l = (b, re)"
    by (cases "test (pattern r) l")
  with test_stateless [OF r, of l] have re: "re = pattern r"
    by simp
  show ?case
    using re Cons.IH [OF rs] by (simp add: line_findings_def t)
qed

lemma lines_loop_stateless:
  assumes "stateless rules"
  shows "lines_loop fn i lns rules found =
     (found @ concat (map (\<lambda>(k, ln). line_findings rules fn (k + 1) ln) (enumerate i lns)),
      rules)"
proof (induction lns arbitrary: i found)
  case Nil
  show ?case by simp
next
  case (Cons l lns)
  show ?case
    by (simp add: rules_loop_stateless [OF assms] Cons.IH)
qed

lemma analyzeWorkflow_stateless:
  assumes "stateless rules"
  shows "analyzeWorkflow rules fn text = (file_findings rules fn text, rules)"
  by (simp add: analyzeWorkflow_def file_findings_def lines_loop_stateless [OF assms])

lemma stateless_securityRules: "stateless securityRules"
  by (simp add: stateless_def securityRules_def no_plaintext_secrets_def
      pin_actions_versions_def third_party_action_review_def script_injection_def
      regexp_literal_def)

lemma failures_Nil: "failures this repo [] = []"
  by (simp add: failures_def)

lemma failures_Cons:
  "failures this repo (f # fs) =
     (if is_workflow_file f
      then (case fetch this repo f of Inl err \<Rightarrow> err # failures this repo fs
            | Inr _ \<Rightarrow> failures this repo fs)
      else failures this repo fs)"
  by (simp add: failures_def split: sum.splits)

lemma files_loop_stateless:
  assumes "stateless rules"
  shows "files_loop this repo fs rules found =
     (case failures this repo fs of
        [] \<Rightarrow> (Inr (found @ concat (map (entry_findings this rules repo)
                                      (filter is_workflow_file fs))), rules)
      | err # _ \<Rightarrow> (Inl err, rules))"
proof (induction fs arbitrary: found)
  case Nil
  show ?case by (simp add: failures_Nil)
next
  case (Cons f fs)
  show ?case
  proof (cases "is_workflow_file f")
    case False
    then show ?thesis
      by (simp add: Cons.IH failures_Cons cong: list.case_cong)
  next
    case True
    show ?thesis
    proof (cases "fetch this repo f")
      case (Inl err)
      with True show ?thesis
        by (simp add: failures_Cons) (simp add: fetch_def)
    next
      case (Inr d)
      have eq: "getContent this (owner this) repo (path f) = Inr d"
        using Inr by (simp add: fetch_def)
      from True Inr show ?thesis
        by (cases d)
          (simp_all add: eq Cons.IH failures_Cons entry_findings_def
            analyzeWorkflow_stateless [OF assms] cong: list.case_cong)
    qed
  qed
qed

text \<open>What a scan with the rule set of the module returns, case by case.\<close>

lemma scan_listing_throws:
  assumes "listing this repo = Inl err"
  shows "scanRepository this rules repo =
     (Fulfilled \<lparr>repository = repo, success = False,
                 message = js ''Error scanning workflows: '' @ err, issues = []\<rparr>, rules)"
  using assms by (simp add: scanRepository_def scanRepository_try_def listing_def)

lemma scan_not_a_directory:
  assumes "listing this repo = Inr d" and "\<And>fs. d \<noteq> Directory fs"
  shows "scanRepository this rules repo =
     (Fulfilled \<lparr>repository = repo, success = False,
                 message = js ''No workflows directory found or not a directory'',
                 issues = []\<rparr>, rules)"
  using assms by (cases d) (auto simp: scanRepository_def scanRepository_try_def listing_def)

lemma scan_file_throws:
  assumes "stateless rules" and "listing this repo = Inr (Directory fs)"
    and "failures this repo fs = err # errs"
  shows "scanRepository this rules repo =
     (Fulfilled \<lparr>repository = repo, success = False,
                 message = js ''Error scanning workflows: '' @ err, issues = []\<rparr>, rules)"
  using assms(2,3)
  by (simp add: scanRepository_def scanRepository_try_def listing_def
      files_loop_stateless [OF assms(1)])

lemma scan_succeeds:
  assumes "stateless rules" and "listing this repo = Inr (Directory fs)"
    and "failures this repo fs = []"
  shows "scanRepository this rules repo =
     (Fulfilled \<lparr>repository = repo, success = True,
                 message =
                   (if length (concat (map (entry_findings this rules repo)
                                         (filter is_workflow_file fs))) > 0
                    then js ''Found '' @
                         numberToString (length (concat (map (entry_findings this rules repo)
                                                           (filter is_workflow_file fs)))) @
                         js '' security issues in workflows''
                    else js ''No security issues found in workflows''),
                 issues = concat (map (entry_findings this rules repo)
                                    (filter is_workflow_file fs))\<rparr>, rules)"
  using assms(2,3)
  by (simp add: scanRepository_def scanRepository_try_def listing_def
      files_loop_stateless [OF assms(1)])

section \<open>Decimal digits\<close>

lemma decimal_value_snoc: "decimal_value (s @ [d]) = 10 * decimal_value s + (unat d - 48)"
  by (simp add: decimal_value_def)

lemma unat_digit: "k < 10 \<Longrightarrow> unat (of_nat (48 + k) :: jschar) = 48 + k"
  using unat_of_nat [where 'a = 16, of "48 + k"] by simp

lemma decimal_value_numberToString: "decimal_value (numberToString n) = n"
proof (induction n rule: numberToString.induct)
  case (1 n)
  show ?case
  proof (cases "n < 10")
    case True
    then show ?thesis
      using unat_digit [of n] by (subst numberToString.simps) (simp add: decimal_value_def)
  next
    case False
    have "unat (of_nat (48 + n mod 10) :: jschar) = 48 + n mod 10"
      by (rule unat_digit) simp
    with False "1.IH" show ?thesis
      by (subst numberToString.simps) (simp add: decimal_value_snoc)
  qed
qed

lemma scan_fulfilled: "\<exists>r rules'. scanRepository this rules repo = (Fulfilled r, rules')"
  by (simp add: scanRepository_def split: prod.splits sum.splits)

section \<open>An example scan\<close>

lemma example_secrets: "\<not> fst (test (pattern no_plaintext_secrets) (js ''uses: a@1''))"
  by code_simp

lemma example_pin: "fst (test (pattern pin_actions_versions) (js ''uses: a@1''))"
  by code_simp

lemma example_third_party: "fst (test (pattern third_party_action_review) (js ''uses: a@1''))"
  by code_simp

lemma example_injection: "\<not> fst (test (pattern script_injection) (js ''uses: a@1''))"
  by code_simp

lemma example_line_findings:
  "line_findings securityRules fn n (js ''uses: a@1'') =
     [make_issue fn n pin_actions_versions (js ''uses: a@1''),
      make_issue fn n third_party_action_review (js ''uses: a@1'')]"
  by (simp add: line_findings_def securityRules_def example_secrets example_pin
      example_third_party example_injection)

lemma example_file_findings:
  "file_findings securityRules fn (js ''uses: a@1'') =
     [make_issue fn 1 pin_actions_versions (js ''uses: a@1''),
      make_issue fn 1 third_party_action_review (js ''uses: a@1'')]"
proof -
  have "split_lines (js ''uses: a@1'') = [js ''uses: a@1'']"
    by (simp add: split_lines_def js_def LF_def)
  then show ?thesis
    by (simp add: file_findings_def enumerate_eq_zip example_line_findings)
qed

lemma example_listing: "listing example_scanner repo = Inr (Directory [example_entry])"
  by (simp add: listing_def example_scanner_def)

lemma example_is_workflow_file: "is_workflow_file example_entry"
  by (simp add: is_workflow_file_def example_entry_def js_def)

lemma example_fetch:
  "fetch example_scanner repo example_entry = Inr (WithContent (js ''uses: a@1''))"
  by (simp add: fetch_def example_scanner_def example_entry_def js_def)

lemma example_scan:
  "scanRepository example_scanner securityRules (js ''demo'') =
     (Fulfilled \<lparr>repository = js ''demo'', success = True,
                 message = js ''Found '' @ numberToString 2 @ js '' security issues in workflows'',
                 issues = [make_issue (js ''ci.yml'') 1 pin_actions_versions (js ''uses: a@1''),
                           make_issue (js ''ci.yml'') 1 third_party_action_review
                             (js ''uses: a@1'')]\<rparr>,
      securityRules)"
proof -
  have f: "failures example_scanner (js ''demo'') [example_entry] = []"
    by (simp add: failures_def example_is_workflow_file example_fetch)
  have n: "name example_entry = js ''ci.yml''"
    by (simp add: example_entry_def)
  show ?thesis
    by (simp add: scan_succeeds [OF stateless_securityRules example_listing f]
        example_is_workflow_file entry_findings_def example_fetch example_file_findings n
        numeral_2_eq_2)
qed

section \<open>The message of a successful scan\<close>

text \<open>
  C10.  A scan that succeeds reports the number of its findings: its message is
  \<open>Found N security issues in workflows\<close>, with \<open>N\<close> the length of the findings
  in decimal digits, when there is a finding, and \<open>No security issues found in
  workflows\<close> when there is none.  The digits written for \<open>N\<close> denote \<open>N\<close>.
\<close>

theorem scan_message:
  assumes "fst (scanRepository this rules repo) = Fulfilled r" and "success r"
  shows "message r =
     (if length (issues r) > 0
      then js ''Found '' @ numberToString (length (issues r)) @ js '' security issues in workflows''
      else js ''No security issues found in workflows'') \<and>
     decimal_value (numberToString (length (issues r))) = length (issues r)"
proof -
  have "message r =
     (if length (issues r) > 0
      then js ''Found '' @ numberToString (length (issues r)) @ js '' security issues in workflows''
      else js ''No security issues found in workflows'')"
  proof (cases "listing this repo")
    case (Inl err)
    with assms show ?thesis
      by (auto simp: scanRepository_def scanRepository_try_def listing_def)
  next
    case (Inr d)
    show ?thesis
    proof (cases d)
      case (Directory fs)
      obtain res rules' where fl: "files_loop this repo fs rules [] = (res, rules')"
        by (cases "files_loop this repo fs rules []")
      from assms Inr Directory fl show ?thesis
        by (cases res) (auto simp: scanRepository_def scanRepository_try_def listing_def)
    next
      case (WithContent t)
      with assms Inr show ?thesis
        by (auto simp: scanRepository_def scanRepository_try_def listing_def)
    next
      case WithoutContent
      with assms Inr show ?thesis
        by (auto simp: scanRepository_def scanRepository_try_def listing_def)
    qed
  qed
  then show ?thesis
    by (simp add: decimal_value_numberToString)
qed

theorem scan_message_witness:
  "\<exists>r. fst (scanRepository example_scanner securityRules (js ''demo'')) = Fulfilled r \<and>
       success r \<and> length (issues r) = 2 \<and>
       message r = js ''Found '' @ numberToString 2 @ js '' security issues in workflows'' \<and>
       decimal_value (numberToString (length (issues r))) = 2"
proof -
  let ?r = "\<lparr>repository = js ''demo'', success = True,
                 message = js ''Found '' @ numberToString 2 @ js '' security issues in workflows'',
                 issues = [make_issue (js ''ci.yml'') 1 pin_actions_versions (js ''uses: a@1''),
                           make_issue (js ''ci.yml'') 1 third_party_action_review (js ''uses: a@1'')]\<rparr>"
  have a: "fst (scanRepository example_scanner securityRules (js ''demo'')) = Fulfilled ?r"
    by (simp add: example_scan)
  have b: "success ?r"
    by simp
  from scan_message [OF a b]
  have "decimal_value (numberToString (length (issues ?r))) = length (issues ?r)"
    by (rule conjunct2)
  with a show ?thesis
    by (intro exI [of _ ?r]) simp
qed

section \<open>Failures of retrieval\<close>

text \<open>
  C5.  A scan always returns a result, and leaves the rules as they were; a result that
  does not succeed has no findings.  When the call for the directory of workflows
  throws, the result does not succeed, its message is \<open>Error scanning workflows:\<close>
  followed by the error, and it has no findings; when the answer is not a directory,
  the result does not succeed, with the message \<open>No workflows directory found or not a
  directory\<close> and no findings; when the call for a workflow file throws, the result
  does not succeed and has no findings, whatever was found in the files before it.
\<close>

theorem retrieval_failure:
  "(\<exists>r. scanRepository this securityRules repo = (Fulfilled r, securityRules) \<and>
        (\<not> success r \<longrightarrow> issues r = [])) \<and>
   (\<forall>err. listing this repo = Inl err \<longrightarrow>
      fst (scanRepository this securityRules repo) =
        Fulfilled \<lparr>repository = repo, success = False,
                   message = js ''Error scanning workflows: '' @ err, issues = []\<rparr>) \<and>
   (\<forall>d. listing this repo = Inr d \<longrightarrow> (\<forall>fs. d \<noteq> Directory fs) \<longrightarrow>
      fst (scanRepository this securityRules repo) =
        Fulfilled \<lparr>repository = repo, success = False,
                   message = js ''No workflows directory found or not a directory'',
                   issues = []\<rparr>) \<and>
   (\<forall>fs err errs. listing this repo = Inr (Directory fs) \<longrightarrow> failures this repo fs = err # errs \<longrightarrow>
      fst (scanRepository this securityRules repo) =
        Fulfilled \<lparr>repository = repo, success = False,
                   message = js ''Error scanning workflows: '' @ err, issues = []\<rparr>)"
proof -
  note st = stateless_securityRules
  have 1: "\<exists>r. scanRepository this securityRules repo = (Fulfilled r, securityRules) \<and>
        (\<not> success r \<longrightarrow> issues r = [])"
  proof (cases "listing this repo")
    case (Inl err)
    then show ?thesis by (simp add: scan_listing_throws)
  next
    case (Inr d)
    show ?thesis
    proof (cases "\<exists>fs. d = Directory fs")
      case False
      with Inr show ?thesis by (simp add: scan_not_a_directory)
    next
      case True
      then obtain fs where d: "d = Directory fs" by blast
      show ?thesis
      proof (cases "failures this repo fs")
        case Nil
        with Inr d show ?thesis by (simp add: scan_succeeds [OF st])
      next
        case (Cons err errs)
        with Inr d show ?thesis by (simp add: scan_file_throws [OF st])
      qed
    qed
  qed
  show ?thesis
    using 1 by (simp add: scan_listing_throws scan_not_a_directory scan_file_throws [OF st])
qed

theorem retrieval_failure_witness:
  "listing failing_scanner (js ''demo'') = Inl (js ''Not Found'') \<and>
   fst (scanRepository failing_scanner securityRules (js ''demo'')) =
     Fulfilled \<lparr>repository = js ''demo'', success = False,
                message = js ''Error scanning workflows: Not Found'', issues = []\<rparr>"
proof -
  have l: "listing failing_scanner (js ''demo'') = Inl (js ''Not Found'')"
    by (simp add: listing_def failing_scanner_def)
  from retrieval_failure [of failing_scanner "js ''demo''"] l show ?thesis
    by (simp add: js_append)
qed

text \<open>
  C6.  The result of a scan does not succeed exactly when the call for the directory
  throws, or its answer is not a directory, or the call for one of the workflow files
  throws: the number of findings has no part in it.  A directory without workflow
  files gives a result that succeeds, with no findings.
\<close>

theorem failure_only_on_retrieval:
  assumes "fst (scanRepository this securityRules repo) = Fulfilled r"
  shows "(\<not> success r \<longleftrightarrow>
            (\<exists>err. listing this repo = Inl err) \<or>
            (\<exists>d. listing this repo = Inr d \<and> (\<forall>fs. d \<noteq> Directory fs)) \<or>
            (\<exists>fs. listing this repo = Inr (Directory fs) \<and> failures this repo fs \<noteq> [])) \<and>
         (\<forall>fs. listing this repo = Inr (Directory fs) \<longrightarrow> filter is_workflow_file fs = [] \<longrightarrow>
            r = \<lparr>repository = repo, success = True,
                  message = js ''No security issues found in workflows'', issues = []\<rparr>)"
proof -
  note st = stateless_securityRules
  show ?thesis
  proof (cases "listing this repo")
    case (Inl err)
    with assms show ?thesis by (auto simp: scan_listing_throws)
  next
    case (Inr d)
    show ?thesis
    proof (cases "\<exists>fs. d = Directory fs")
      case False
      with Inr assms show ?thesis by (auto simp: scan_not_a_directory)
    next
      case True
      then obtain fs where d: "d = Directory fs" by blast
      show ?thesis
      proof (cases "failures this repo fs")
        case Nil
        let ?found = "concat (map (entry_findings this securityRules repo)
                                (filter is_workflow_file fs))"
        from assms Inr d Nil have r: "r =
            \<lparr>repository = repo, success = True,
               message = (if 0 < length ?found
                          then js ''Found '' @ numberToString (length ?found) @
                               js '' security issues in workflows''
                          else js ''No security issues found in workflows''),
               issues = ?found\<rparr>"
          by (simp add: scan_succeeds [OF st])
        have c1: "success r"
          by (subst r) simp
        have c2: "filter is_workflow_file fs = [] \<longrightarrow>
            r = \<lparr>repository = repo, success = True,
                  message = js ''No security issues found in workflows'', issues = []\<rparr>"
        proof
          assume e: "filter is_workflow_file fs = []"
          show "r = \<lparr>repository = repo, success = True,
                  message = js ''No security issues found in workflows'', issues = []\<rparr>"
            by (subst r) (simp add: e)
        qed
        from Inr d Nil c1 c2 show ?thesis
          by simp
      next
        case (Cons err errs)
        then have "filter is_workflow_file fs \<noteq> []"
          by (auto simp: failures_def)
        with Cons Inr d assms show ?thesis by (auto simp: scan_file_throws [OF st])
      qed
    qed
  qed
qed

theorem failure_only_on_retrieval_witness:
  "fst (scanRepository empty_scanner securityRules (js ''demo'')) =
     Fulfilled \<lparr>repository = js ''demo'', success = True,
                message = js ''No security issues found in workflows'', issues = []\<rparr>"
proof -
  obtain r rules' where r: "scanRepository empty_scanner securityRules (js ''demo'') = (Fulfilled r, rules')"
    using scan_fulfilled by blast
  then have a: "fst (scanRepository empty_scanner securityRules (js ''demo'')) = Fulfilled r"
    by simp
  have l: "listing empty_scanner (js ''demo'') = Inr (Directory [])"
    by (simp add: listing_def empty_scanner_def)
  from failure_only_on_retrieval [OF a] l
  have "r = \<lparr>repository = js ''demo'', success = True,
                message = js ''No security issues found in workflows'', issues = []\<rparr>"
    by simp
  with a show ?thesis by simp
qed


section \<open>The findings of a line\<close>

lemma line_of_make_issue: "line (make_issue fn n r l) = n"
  by (simp add: make_issue_def)

lemma filter_line_line_findings:
  "filter (\<lambda>f. line f = k) (line_findings rules fn n l) =
     (if n = k then line_findings rules fn n l else [])"
  by (simp add: line_findings_def filter_map o_def line_of_make_issue)

lemma filter_line_enumerate:
  "filter (\<lambda>f. line f = k)
     (concat (map (\<lambda>(i, ln). line_findings rules fn (Suc i) ln) (enumerate j lns))) =
   (if j < k \<and> k \<le> j + length lns then line_findings rules fn k (lns ! (k - 1 - j)) else [])"
proof (induction lns arbitrary: j)
  case Nil
  show ?case by auto
next
  case (Cons l lns)
  show ?case
  proof (cases "k = j + 1")
    case True
    with Cons.IH [of "Suc j"] show ?thesis
      by (simp add: filter_line_line_findings)
  next
    case False
    have "j < k \<and> k \<le> j + length (l # lns) \<Longrightarrow> (l # lns) ! (k - 1 - j) = lns ! (k - 1 - Suc j)"
    proof -
      assume "j < k \<and> k \<le> j + length (l # lns)"
      with False have "k - 1 - j = Suc (k - 1 - Suc j)"
        by arith
      then show ?thesis
        by simp
    qed
    with False Cons.IH [of "Suc j"] show ?thesis
      by (auto simp: filter_line_line_findings)
  qed
qed

lemma findings_of_line:
  assumes "i < length (split_lines text)"
  shows "filter (\<lambda>f. line f = i + 1) (fst (analyzeWorkflow securityRules fn text)) =
     line_findings securityRules fn (i + 1) (split_lines text ! i)"
  using assms filter_line_enumerate [of "Suc i" securityRules fn 0 "split_lines text"]
  by (simp add: analyzeWorkflow_stateless [OF stateless_securityRules] file_findings_def)

lemma rule_ids_distinct: "distinct (map rule_id securityRules)"
  by (simp add: securityRules_def no_plaintext_secrets_def pin_actions_versions_def
      third_party_action_review_def script_injection_def js_def)

lemma filter_rule_line_findings:
  assumes "distinct (map rule_id rules)" and "ru \<in> set rules"
  shows "filter (\<lambda>f. rule f = rule_id ru) (line_findings rules fn n l) =
     (if fst (test (pattern ru) l) then [make_issue fn n ru l] else [])"
  using assms
proof (induction rules)
  case Nil
  then show ?case by simp
next
  case (Cons a rules)
  have r: "\<And>x. rule (make_issue fn n x l) = rule_id x"
    by (simp add: make_issue_def)
  show ?case
  proof (cases "ru = a")
    case True
    from Cons.prems have "rule_id a \<notin> rule_id ` set rules"
      by simp
    then have "\<forall>x\<in>set rules. rule_id x \<noteq> rule_id a"
      by (auto simp: image_iff)
    then have "filter (\<lambda>f. rule f = rule_id a) (line_findings rules fn n l) = []"
      by (auto simp: line_findings_def filter_empty_conv r)
    with True show ?thesis
      by (simp add: line_findings_def r)
  next
    case False
    with Cons.prems have "ru \<in> set rules" and "rule_id a \<noteq> rule_id ru" and "distinct (map rule_id rules)"
      by auto
    with Cons.IH show ?thesis
      by (simp add: line_findings_def r)
  qed
qed





section \<open>Scanning twice\<close>

lemma scan_rules_unchanged:
  assumes "stateless rules"
  shows "snd (scanRepository this rules repo) = rules"
proof (cases "listing this repo")
  case (Inl err)
  then show ?thesis by (simp add: scan_listing_throws)
next
  case (Inr d)
  show ?thesis
  proof (cases "\<exists>fs. d = Directory fs")
    case False
    with Inr show ?thesis by (simp add: scan_not_a_directory)
  next
    case True
    then obtain fs where d: "d = Directory fs" by blast
    show ?thesis
    proof (cases "failures this repo fs")
      case Nil
      with Inr d show ?thesis by (simp add: scan_succeeds [OF assms])
    next
      case (Cons err errs)
      with Inr d show ?thesis by (simp add: scan_file_throws [OF assms])
    qed
  qed
qed

text \<open>
  C9.  A scan with the rule set of the module leaves the rules as they were, so that a
  second scan of the same source returns the result of the first, and the report of the
  second result is the report of the first; the same holds for the analysis of one
  file.
\<close>

theorem scan_twice:
  "(\<exists>r. fst (scanRepository this securityRules repo) = Fulfilled r \<and>
        fst (scanRepository this (snd (scanRepository this securityRules repo)) repo) =
          Fulfilled r) \<and>
   map_promise generateReport
     (fst (scanRepository this (snd (scanRepository this securityRules repo)) repo)) =
   map_promise generateReport (fst (scanRepository this securityRules repo)) \<and>
   snd (scanRepository this securityRules repo) = securityRules \<and>
   snd (analyzeWorkflow securityRules fn text) = securityRules \<and>
   fst (analyzeWorkflow (snd (analyzeWorkflow securityRules fn text)) fn text) =
     fst (analyzeWorkflow securityRules fn text)"
proof -
  note st = stateless_securityRules
  have s: "snd (scanRepository this securityRules repo) = securityRules"
    by (rule scan_rules_unchanged [OF st])
  obtain r rules' where "scanRepository this securityRules repo = (Fulfilled r, rules')"
    using scan_fulfilled by blast
  then have "fst (scanRepository this securityRules repo) = Fulfilled r"
    by simp
  with s show ?thesis
    by (simp add: analyzeWorkflow_stateless [OF st])
qed

theorem scan_twice_witness:
  "fst (scanRepository example_scanner
          (snd (scanRepository example_scanner securityRules (js ''demo''))) (js ''demo'')) =
   Fulfilled \<lparr>repository = js ''demo'', success = True,
              message = js ''Found '' @ numberToString 2 @ js '' security issues in workflows'',
              issues = [make_issue (js ''ci.yml'') 1 pin_actions_versions (js ''uses: a@1''),
                        make_issue (js ''ci.yml'') 1 third_party_action_review
                          (js ''uses: a@1'')]\<rparr>"
  using scan_twice [of example_scanner "js ''demo''" "js ''ci.yml''" "js ''uses: a@1''"]
  by (simp add: example_scan)


section \<open>The report of a scan with findings\<close>

lemma formatIssues_loop_entries:
  "formatIssues_loop found result = result @ concat (map issue_entry found)"
  by (induction found arbitrary: result) (simp_all add: issue_entry_def)

lemma formatIssues_entries: "formatIssues found = concat (map issue_entry found)"
  by (simp add: formatIssues_def formatIssues_loop_entries)

lemma section_step:
  "(if found \<noteq> [] then report @ heading @ formatIssues found else report) =
     report @ severity_section heading found"
  by (simp add: severity_section_def formatIssues_entries)

lemma numberToString_0: "numberToString 0 = js ''0''"
  by (subst numberToString.simps) (simp add: js_def)

lemma numberToString_1: "numberToString (Suc 0) = js ''1''"
  by (subst numberToString.simps) (simp add: js_def)

lemma numberToString_2: "numberToString 2 = js ''2''"
  by (subst numberToString.simps) (simp add: js_def)

lemma numberToString_3: "numberToString 3 = js ''3''"
  by (subst numberToString.simps) (simp add: js_def)

text \<open>
  C7.  The report of a result that succeeds and has a finding is the title, then the
  summary with the numbers of findings of the severities critical, high, medium and
  low, in this order, each written also when it is 0, then the sections of the four
  severities in the same order.  The section of a severity is empty when no finding
  has it; otherwise it is its heading followed by the entries of the findings of this
  severity, in their order, each with the rule, the file, the line, the description,
  the text of the line and the remediation.
\<close>

theorem report_of_findings:
  assumes "success r" and "issues r \<noteq> []"
  shows "generateReport r =
     js ''# Workflow Security Scan Report for '' @ repository r @ js ''\<newline>\<newline>'' @
     js ''## Summary\<newline>\<newline>'' @
     js ''- Critical: '' @ numberToString (length (of_severity Critical (issues r))) @ js ''\<newline>'' @
     js ''- High: '' @ numberToString (length (of_severity High (issues r))) @ js ''\<newline>'' @
     js ''- Medium: '' @ numberToString (length (of_severity Medium (issues r))) @ js ''\<newline>'' @
     js ''- Low: '' @ numberToString (length (of_severity Low (issues r))) @ js ''\<newline>\<newline>'' @
     severity_section (js ''## Critical Issues\<newline>\<newline>'') (of_severity Critical (issues r)) @
     severity_section (js ''## High Issues\<newline>\<newline>'') (of_severity High (issues r)) @
     severity_section (js ''## Medium Issues\<newline>\<newline>'') (of_severity Medium (issues r)) @
     severity_section (js ''## Low Issues\<newline>\<newline>'') (of_severity Low (issues r))"
  using assms
  by (simp add: generateReport_def Let_def section_step of_severity_def)


theorem report_of_findings_witness:
  "generateReport example_result =
     js (''# Workflow Security Scan Report for demo\<newline>\<newline>'' @
         ''## Summary\<newline>\<newline>'' @
         ''- Critical: 0\<newline>- High: 1\<newline>- Medium: 0\<newline>- Low: 0\<newline>\<newline>'' @
         ''## High Issues\<newline>\<newline>'' @
         ''### pin-actions-versions\<newline>\<newline>'' @
         ''**File**: `ci.yml` (line 3)\<newline>\<newline>'' @
         ''**Description**: Pin actions to a specific SHA\<newline>\<newline>'' @
         ''**Code**:\<newline>```yaml\<newline>uses: a@1\<newline>```\<newline>\<newline>'' @
         ''**Remediation**: Pin it\<newline>\<newline>'' @
         ''---\<newline>\<newline>'')"
proof -
  have a: "success example_result" and b: "issues example_result \<noteq> []"
    by (simp_all add: example_result_def)
  show ?thesis
    by (subst report_of_findings [OF a b])
      (simp add: example_result_def of_severity_def severity_section_def issue_entry_def
        numberToString_0 numberToString_1 numberToString_3 js_append)
qed

section \<open>What a pattern without lookahead matches\<close>

lemma search_iff: "search m False s \<noteq> None \<longleftrightarrow> (\<exists>p t. s = p @ t \<and> m t \<noteq> [])"
proof (induction s)
  case Nil
  show ?case by (simp split: list.splits)
next
  case (Cons c s)
  show ?case
  proof (cases "m (c # s)")
    case Nil
    have "(\<exists>p t. c # s = p @ t \<and> m t \<noteq> []) \<longleftrightarrow> (\<exists>p t. s = p @ t \<and> m t \<noteq> [])"
    proof
      assume "\<exists>p t. c # s = p @ t \<and> m t \<noteq> []"
      then obtain p t where pt: "c # s = p @ t" "m t \<noteq> []" by blast
      with Nil have "p \<noteq> []" by auto
      with pt(1) obtain p' where "p = c # p'" "s = p' @ t"
        by (cases p) auto
      with pt(2) show "\<exists>p t. s = p @ t \<and> m t \<noteq> []" by blast
    next
      assume "\<exists>p t. s = p @ t \<and> m t \<noteq> []"
      then obtain p t where "s = p @ t" "m t \<noteq> []" by blast
      then have "c # s = (c # p) @ t \<and> m t \<noteq> []" by simp
      then show "\<exists>p t. c # s = p @ t \<and> m t \<noteq> []" by blast
    qed
    with Nil Cons.IH show ?thesis by simp
  next
    case (Cons t ts)
    then have "c # s = [] @ (c # s) \<and> m (c # s) \<noteq> []" by simp
    then have "\<exists>p t. c # s = p @ t \<and> m t \<noteq> []" by blast
    with Cons show ?thesis by simp
  qed
qed

lemma test_iff:
  assumes "\<not> global R" "\<not> sticky R"
  shows "fst (test R S) \<longleftrightarrow>
     (\<exists>p t. S = p @ t \<and> match_rest (ignoreCase R) (source R) t \<noteq> [])"
proof -
  have "fst (test R S) \<longleftrightarrow> search (match_rest (ignoreCase R) (source R)) False S \<noteq> None"
    using assms by (simp add: test_def Let_def split: option.splits)
  then show ?thesis
    by (simp only: search_iff)
qed

lemma str_match_iff:
  "str_match ic w s = Some t \<longleftrightarrow> (\<exists>x. s = x @ t \<and> list_all2 (char_eq ic) w x)"
proof (induction w arbitrary: s)
  case Nil
  show ?case by auto
next
  case (Cons p w)
  show ?case
  proof (cases s)
    case Nil
    then show ?thesis by simp
  next
    case (Cons c cs)
    show ?thesis
    proof (cases "char_eq ic p c")
      case True
      have "(\<exists>x. c # cs = x @ t \<and> list_all2 (char_eq ic) (p # w) x) \<longleftrightarrow>
            (\<exists>x. cs = x @ t \<and> list_all2 (char_eq ic) w x)"
        using True by (auto simp: list_all2_Cons1)
      with True Cons Cons.IH [of cs] show ?thesis by simp
    next
      case False
      then have "\<not> (\<exists>x. c # cs = x @ t \<and> list_all2 (char_eq ic) (p # w) x)"
        by (auto simp: list_all2_Cons1)
      with False Cons show ?thesis by simp
    qed
  qed
qed

lemma star_rest_sound:
  assumes m: "\<And>s. set (m s) = after L s"
  shows "t \<in> set (star_rest m s) \<Longrightarrow> \<exists>xs. set xs \<subseteq> L \<and> s = concat xs @ t"
proof (induction s rule: length_induct)
  case (1 s)
  from "1.prems" have "t = s \<or> (\<exists>u\<in>set (m s). length u < length s \<and> t \<in> set (star_rest m u))"
    by (subst (asm) star_rest.simps) auto
  then show ?case
  proof
    assume "t = s"
    then have "set [] \<subseteq> L \<and> s = concat [] @ t" by simp
    then show ?thesis by blast
  next
    assume "\<exists>u\<in>set (m s). length u < length s \<and> t \<in> set (star_rest m u)"
    then obtain u where u: "u \<in> set (m s)" "length u < length s" "t \<in> set (star_rest m u)"
      by blast
    from u(1) obtain x where x: "x \<in> L" "s = x @ u"
      by (auto simp: m after_def)
    from "1.IH" u(2,3) obtain xs where xs: "set xs \<subseteq> L" "u = concat xs @ t"
      by blast
    from x xs have "set (x # xs) \<subseteq> L \<and> s = concat (x # xs) @ t" by simp
    then show ?thesis by blast
  qed
qed

lemma star_rest_complete:
  assumes m: "\<And>s. set (m s) = after L s"
  shows "set xs \<subseteq> L \<Longrightarrow> s = concat xs @ t \<Longrightarrow> t \<in> set (star_rest m s)"
proof (induction xs arbitrary: s)
  case Nil
  then show ?case by (subst star_rest.simps) simp
next
  case (Cons x xs)
  show ?case
  proof (cases "x = []")
    case True
    with Cons show ?thesis by simp
  next
    case False
    let ?u = "concat xs @ t"
    from Cons.prems have "?u \<in> set (m s)"
      by (auto simp: m after_def)
    moreover from False Cons.prems have "length ?u < length s" by simp
    moreover from Cons.prems have "t \<in> set (star_rest m ?u)"
      by (intro Cons.IH) auto
    ultimately show ?thesis
      by (subst star_rest.simps) auto
  qed
qed

lemma star_rest_set:
  assumes m: "\<And>s. set (m s) = after L s"
  shows "set (star_rest m s) = after {concat xs | xs. set xs \<subseteq> L} s"
  using star_rest_sound [OF m] star_rest_complete [OF m]
  by (auto simp: after_def) blast+

lemma after_Seq: "(\<Union>u\<in>after A s. after B u) = after {x @ y | x y. x \<in> A \<and> y \<in> B} s"
  by (auto simp: after_def) blast+

lemma plain_match_rest: "plain r \<Longrightarrow> set (match_rest ic r s) = after (lang ic r) s"
proof (induction r arbitrary: s)
  case (Str w)
  show ?case
  proof (rule set_eqI)
    fix t
    have "t \<in> set (match_rest ic (Str w) s) \<longleftrightarrow> str_match ic w s = Some t"
      by (auto split: option.splits)
    also have "\<dots> \<longleftrightarrow> t \<in> after (lang ic (Str w)) s"
      by (auto simp: str_match_iff after_def)
    finally show "t \<in> set (match_rest ic (Str w) s) \<longleftrightarrow> t \<in> after (lang ic (Str w)) s" .
  qed
next
  case (Cls C)
  show ?case
    by (cases s) (auto simp: after_def)
next
  case (Seq a b)
  then have a: "\<And>s. set (match_rest ic a s) = after (lang ic a) s"
    and b: "\<And>s. set (match_rest ic b s) = after (lang ic b) s"
    by simp_all
  show ?case
    by (simp add: a b after_Seq)
next
  case (Alt a b)
  then show ?case
    by (auto simp: after_def)
next
  case (Star a)
  then have a: "\<And>s. set (match_rest ic a s) = after (lang ic a) s"
    by simp
  show ?case
    by (simp add: star_rest_set [OF a])
next
  case (Plus a)
  then have a: "\<And>s. set (match_rest ic a s) = after (lang ic a) s"
    by simp
  have "set (match_rest ic (Plus a) s) =
      (\<Union>u\<in>after (lang ic a) s. after {concat xs | xs. set xs \<subseteq> lang ic a} u)"
    by (simp add: a star_rest_set [OF a])
  also have "\<dots> = after (lang ic (Plus a)) s"
    by (simp only: after_Seq lang.simps) (rule arg_cong [where f = "\<lambda>L. after L s"], auto)
  finally show ?case .
next
  case (Group a)
  then show ?case by simp
next
  case (NegLookahead a)
  then show ?case by simp
qed

lemma plain_test_iff:
  assumes "\<not> global R" "\<not> sticky R" "plain (source R)"
  shows "fst (test R S) \<longleftrightarrow> (\<exists>p x t. S = p @ x @ t \<and> x \<in> lang (ignoreCase R) (source R))"
proof -
  have "\<And>t. match_rest (ignoreCase R) (source R) t \<noteq> [] \<longleftrightarrow>
      (\<exists>x u. t = x @ u \<and> x \<in> lang (ignoreCase R) (source R))"
  proof -
    fix t
    have "match_rest (ignoreCase R) (source R) t \<noteq> [] \<longleftrightarrow>
        set (match_rest (ignoreCase R) (source R) t) \<noteq> {}"
      by simp
    also have "\<dots> \<longleftrightarrow> (\<exists>x u. t = x @ u \<and> x \<in> lang (ignoreCase R) (source R))"
      by (auto simp: plain_match_rest [OF assms(3)] after_def)
    finally show "match_rest (ignoreCase R) (source R) t \<noteq> [] \<longleftrightarrow>
      (\<exists>x u. t = x @ u \<and> x \<in> lang (ignoreCase R) (source R))" .
  qed
  then show ?thesis
    by (simp add: test_iff [OF assms(1,2)]) blast
qed

section \<open>The pattern of the third-party rule\<close>

declare lang.simps [simp del]

declare match_rest.simps [simp del]

lemma lang_Star_Cls: "lang ic (Star (Cls C)) = {w. \<forall>c\<in>set w. in_class C c}"
proof (rule set_eqI)
  fix w
  show "w \<in> lang ic (Star (Cls C)) \<longleftrightarrow> w \<in> {w. \<forall>c\<in>set w. in_class C c}"
  proof
    assume "w \<in> lang ic (Star (Cls C))"
    then obtain xs where "w = concat xs" and "set xs \<subseteq> {[c] | c. in_class C c}"
      by (auto simp: lang.simps)
    then show "w \<in> {w. \<forall>c\<in>set w. in_class C c}"
      by auto
  next
    assume "w \<in> {w. \<forall>c\<in>set w. in_class C c}"
    then have "w = concat (map (\<lambda>c. [c]) w) \<and> set (map (\<lambda>c. [c]) w) \<subseteq> {[c] | c. in_class C c}"
      by (induction w) auto
    then show "w \<in> lang ic (Star (Cls C))"
      by (simp only: lang.simps) blast
  qed
qed

lemma lang_Plus_Cls: "lang ic (Plus (Cls C)) = {w. w \<noteq> [] \<and> (\<forall>c\<in>set w. in_class C c)}"
proof (rule set_eqI)
  fix w
  have "w \<in> lang ic (Plus (Cls C)) \<longleftrightarrow>
      (\<exists>x y. w = x @ y \<and> x \<in> lang ic (Cls C) \<and> y \<in> lang ic (Star (Cls C)))"
    by (simp only: lang.simps mem_Collect_eq) blast
  also have "\<dots> \<longleftrightarrow> (\<exists>c y. w = c # y \<and> in_class C c \<and> (\<forall>d\<in>set y. in_class C d))"
  proof
    assume "\<exists>x y. w = x @ y \<and> x \<in> lang ic (Cls C) \<and> y \<in> lang ic (Star (Cls C))"
    then show "\<exists>c y. w = c # y \<and> in_class C c \<and> (\<forall>d\<in>set y. in_class C d)"
      by (auto simp: lang_Star_Cls lang.simps(2))
  next
    assume "\<exists>c y. w = c # y \<and> in_class C c \<and> (\<forall>d\<in>set y. in_class C d)"
    then obtain c y where "w = [c] @ y" "[c] \<in> lang ic (Cls C)" "y \<in> lang ic (Star (Cls C))"
      by (auto simp: lang_Star_Cls lang.simps(2))
    then show "\<exists>x y. w = x @ y \<and> x \<in> lang ic (Cls C) \<and> y \<in> lang ic (Star (Cls C))"
      by blast
  qed
  also have "\<dots> \<longleftrightarrow> w \<noteq> [] \<and> (\<forall>c\<in>set w. in_class C c)"
    by (cases w) auto
  finally show "w \<in> lang ic (Plus (Cls C)) \<longleftrightarrow>
      w \<in> {w. w \<noteq> [] \<and> (\<forall>c\<in>set w. in_class C c)}"
    by simp
qed

lemma lang_Str_exact: "lang False (Str w) = {w}"
proof -
  have "char_eq False = (=)"
    by (intro ext) (simp add: char_eq_def)
  then show ?thesis
    by (auto simp: lang.simps list.rel_eq)
qed

lemma lang_Str_ignore_case:
  "lang True (Str w) = {x. map canonicalize x = map canonicalize w}"
proof -
  have "list_all2 (char_eq True) w x \<longleftrightarrow> map canonicalize x = map canonicalize w" for x
  proof -
    have "char_eq True = (\<lambda>p c. canonicalize p = canonicalize c)"
      by (intro ext) (simp add: char_eq_def)
    then have "list_all2 (char_eq True) w x \<longleftrightarrow> list_all2 (=) (map canonicalize w) (map canonicalize x)"
      by (simp add: list.rel_map)
    then show ?thesis
      by (auto simp: list.rel_eq)
  qed
  then show ?thesis by (auto simp: lang.simps)
qed

lemma match_rest_Seq_set:
  "set (match_rest ic (Seq a b) s) = (\<Union>u\<in>set (match_rest ic a s). set (match_rest ic b u))"
  by (simp add: match_rest.simps)

lemma match_rest_Seq_nonempty:
  "match_rest ic (Seq a b) s \<noteq> [] \<longleftrightarrow> (\<exists>u\<in>set (match_rest ic a s). match_rest ic b u \<noteq> [])"
  by (simp add: match_rest.simps)

lemma match_Star_Cls:
  "set (match_rest ic (Star (Cls C)) s) = {v. \<exists>ws. s = ws @ v \<and> (\<forall>c\<in>set ws. in_class C c)}"
  using plain_match_rest [of "Star (Cls C)" ic s]
  by (auto simp: lang_Star_Cls after_def)

lemma match_Str_exact: "set (match_rest False (Str w) s) = {v. s = w @ v}"
  using plain_match_rest [of "Str w" False s]
  by (auto simp: lang_Str_exact after_def)

lemma plain_match_nonempty:
  assumes "plain r"
  shows "match_rest ic r s \<noteq> [] \<longleftrightarrow> (\<exists>x\<in>lang ic r. prefix x s)"
proof -
  have "match_rest ic r s \<noteq> [] \<longleftrightarrow> set (match_rest ic r s) \<noteq> {}"
    by simp
  also have "\<dots> \<longleftrightarrow> (\<exists>x\<in>lang ic r. prefix x s)"
    by (auto simp: plain_match_rest [OF assms] after_def prefix_def)
  finally show ?thesis .
qed

lemma whitespace_not_prefix:
  assumes "isWhiteSpace c"
  shows "\<not> prefix (js ''actions/'') (c # u)" and "\<not> prefix (js ''./'') (c # u)"
  using assms by (auto simp: js_def isWhiteSpace_def)

lemma third_party_match:
  "match_rest False third_party_source t \<noteq> [] \<longleftrightarrow>
     (\<exists>u. t = js ''uses:'' @ u \<and> \<not> prefix (js ''actions/'') u \<and> \<not> prefix (js ''./'') u)"
proof -
  let ?look = "NegLookahead (Alt (Str (js ''actions/'')) (Str (js ''./'')))"
  have look: "match_rest False ?look v \<noteq> [] \<longleftrightarrow>
      \<not> prefix (js ''actions/'') v \<and> \<not> prefix (js ''./'') v" for v
  proof -
    have "match_rest False (Alt (Str (js ''actions/'')) (Str (js ''./''))) v \<noteq> [] \<longleftrightarrow>
        prefix (js ''actions/'') v \<or> prefix (js ''./'') v"
      by (subst plain_match_nonempty) (auto simp: lang.simps(4) lang_Str_exact)
    then have alt: "match_rest False (Alt (Str (js ''actions/'')) (Str (js ''./''))) v = [] \<longleftrightarrow>
        \<not> prefix (js ''actions/'') v \<and> \<not> prefix (js ''./'') v"
      by blast
    then show ?thesis
    proof (cases "match_rest False (Alt (Str (js ''actions/'')) (Str (js ''./''))) v = []")
      case True
      have "match_rest False ?look v = [v]"
        by (simp only: match_rest.simps(8) True) simp
      with alt True show ?thesis by simp
    next
      case False
      have "match_rest False ?look v = []"
        by (simp only: match_rest.simps(8) False) simp
      with alt False show ?thesis by simp
    qed
  qed
  have rest: "match_rest False (Seq (Star (Cls Space)) ?look) u \<noteq> [] \<longleftrightarrow>
      \<not> prefix (js ''actions/'') u \<and> \<not> prefix (js ''./'') u" for u
  proof -
    have "match_rest False (Seq (Star (Cls Space)) ?look) u \<noteq> [] \<longleftrightarrow>
        (\<exists>v\<in>set (match_rest False (Star (Cls Space)) u). match_rest False ?look v \<noteq> [])"
      by (rule match_rest_Seq_nonempty)
    also have "\<dots> \<longleftrightarrow> (\<exists>ws v. u = ws @ v \<and> (\<forall>c\<in>set ws. isWhiteSpace c) \<and>
        \<not> prefix (js ''actions/'') v \<and> \<not> prefix (js ''./'') v)"
      by (auto simp: look match_Star_Cls)
    also have "\<dots> \<longleftrightarrow> \<not> prefix (js ''actions/'') u \<and> \<not> prefix (js ''./'') u"
    proof
      assume "\<exists>ws v. u = ws @ v \<and> (\<forall>c\<in>set ws. isWhiteSpace c) \<and>
        \<not> prefix (js ''actions/'') v \<and> \<not> prefix (js ''./'') v"
      then obtain ws v where wv: "u = ws @ v" "\<forall>c\<in>set ws. isWhiteSpace c"
        "\<not> prefix (js ''actions/'') v" "\<not> prefix (js ''./'') v"
        by blast
      show "\<not> prefix (js ''actions/'') u \<and> \<not> prefix (js ''./'') u"
      proof (cases ws)
        case Nil
        with wv show ?thesis by simp
      next
        case (Cons c ws')
        with wv(2) have "isWhiteSpace c" by simp
        from whitespace_not_prefix [OF this] wv(1) Cons show ?thesis by simp
      qed
    next
      assume "\<not> prefix (js ''actions/'') u \<and> \<not> prefix (js ''./'') u"
      then have "u = [] @ u \<and> (\<forall>c\<in>set []. isWhiteSpace c) \<and>
        \<not> prefix (js ''actions/'') u \<and> \<not> prefix (js ''./'') u"
        by simp
      then show "\<exists>ws v. u = ws @ v \<and> (\<forall>c\<in>set ws. isWhiteSpace c) \<and>
        \<not> prefix (js ''actions/'') v \<and> \<not> prefix (js ''./'') v"
        by blast
    qed
    finally show ?thesis .
  qed
  have "match_rest False third_party_source t \<noteq> [] \<longleftrightarrow>
      (\<exists>u\<in>set (match_rest False (Str (js ''uses:'')) t).
         match_rest False (Seq (Star (Cls Space)) ?look) u \<noteq> [])"
    by (simp add: third_party_source_def match_rest_Seq_nonempty)
  also have "\<dots> \<longleftrightarrow> (\<exists>u. t = js ''uses:'' @ u \<and>
      \<not> prefix (js ''actions/'') u \<and> \<not> prefix (js ''./'') u)"
    by (simp add: rest match_Str_exact)
  finally show ?thesis .
qed

lemma third_party_test:
  "fst (test (pattern third_party_action_review) s) \<longleftrightarrow>
     (\<exists>p u. s = p @ js ''uses:'' @ u \<and>
        \<not> prefix (js ''actions/'') u \<and> \<not> prefix (js ''./'') u)"
proof -
  have "fst (test (pattern third_party_action_review) s) \<longleftrightarrow>
      (\<exists>p t. s = p @ t \<and> match_rest False third_party_source t \<noteq> [])"
    by (subst test_iff) (simp_all add: third_party_action_review_def regexp_literal_def)
  then show ?thesis
    by (simp add: third_party_match) blast
qed

lemma prefix_snoc_other:
  assumes "c \<notin> set a"
  shows "prefix a (u @ [c]) \<longleftrightarrow> prefix a u"
  using assms by auto

lemma third_party_snoc:
  "fst (test (pattern third_party_action_review) (l @ [CR])) =
   fst (test (pattern third_party_action_review) l)"
proof -
  have a: "CR \<notin> set (js ''actions/'')" and b: "CR \<notin> set (js ''./'')"
    by (simp_all add: js_def CR_def)
  show ?thesis
  proof
    assume "fst (test (pattern third_party_action_review) (l @ [CR]))"
    then obtain p u where pu: "l @ [CR] = p @ js ''uses:'' @ u"
      "\<not> prefix (js ''actions/'') u" "\<not> prefix (js ''./'') u"
      by (auto simp: third_party_test)
    have "u \<noteq> []"
    proof
      assume "u = []"
      with pu(1) have "last (l @ [CR]) = last (p @ js ''uses:'')" by simp
      then show False by (simp add: js_def CR_def)
    qed
    then obtain u' c where u: "u = u' @ [c]"
      by (cases u rule: rev_cases) auto
    with pu(1) have "l @ [CR] = (p @ js ''uses:'' @ u') @ [c]" by simp
    then have l: "l = p @ js ''uses:'' @ u'" and c: "c = CR" by simp_all
    from pu(2,3) have "\<not> prefix (js ''actions/'') u'" "\<not> prefix (js ''./'') u'"
      by (simp_all add: u c prefix_snoc_other [OF a] prefix_snoc_other [OF b] del: prefix_snoc)
    with l show "fst (test (pattern third_party_action_review) l)"
      by (auto simp: third_party_test)
  next
    assume "fst (test (pattern third_party_action_review) l)"
    then obtain p u where pu: "l = p @ js ''uses:'' @ u"
      "\<not> prefix (js ''actions/'') u" "\<not> prefix (js ''./'') u"
      by (auto simp: third_party_test)
    then have "l @ [CR] = p @ js ''uses:'' @ (u @ [CR]) \<and>
        \<not> prefix (js ''actions/'') (u @ [CR]) \<and> \<not> prefix (js ''./'') (u @ [CR])"
      by (simp add: prefix_snoc_other [OF a] prefix_snoc_other [OF b] del: prefix_snoc)
    then show "fst (test (pattern third_party_action_review) (l @ [CR]))"
      unfolding third_party_test by blast
  qed
qed

lemma plain_test_snoc:
  assumes "\<not> global R" "\<not> sticky R" "plain (source R)"
    and "ends_ok c (lang (ignoreCase R) (source R))"
  shows "fst (test R (l @ [c])) = fst (test R l)"
proof
  assume "fst (test R (l @ [c]))"
  then obtain p x t where pxt: "l @ [c] = p @ x @ t" "x \<in> lang (ignoreCase R) (source R)"
    by (auto simp: plain_test_iff [OF assms(1-3)])
  with assms(4) have x: "x \<noteq> []" "last x \<noteq> c"
    by (auto simp: ends_ok_def)
  have "t \<noteq> []"
  proof
    assume "t = []"
    with pxt(1) x(1) have "last (l @ [c]) = last x" by simp
    with x(2) show False by simp
  qed
  then obtain t' d where t: "t = t' @ [d]"
    by (cases t rule: rev_cases) auto
  with pxt(1) have "l @ [c] = (p @ x @ t') @ [d]" by simp
  then have "l = p @ x @ t'" by simp
  with pxt(2) show "fst (test R l)"
    unfolding plain_test_iff [OF assms(1-3)] by blast
next
  assume "fst (test R l)"
  then obtain p x t where "l = p @ x @ t" "x \<in> lang (ignoreCase R) (source R)"
    by (auto simp: plain_test_iff [OF assms(1-3)])
  then have "l @ [c] = p @ x @ (t @ [c]) \<and> x \<in> lang (ignoreCase R) (source R)"
    by simp
  then show "fst (test R (l @ [c]))"
    unfolding plain_test_iff [OF assms(1-3)] by blast
qed

lemma ends_ok_Seq: "ends_ok c (lang ic b) \<Longrightarrow> ends_ok c (lang ic (Seq a b))"
  by (auto simp: ends_ok_def lang.simps)

lemma ends_ok_Alt: "ends_ok c (lang ic a) \<Longrightarrow> ends_ok c (lang ic b) \<Longrightarrow> ends_ok c (lang ic (Alt a b))"
  by (auto simp: ends_ok_def lang.simps)

lemma ends_ok_Group: "ends_ok c (lang ic a) \<Longrightarrow> ends_ok c (lang ic (Group a))"
  by (simp add: lang.simps)

lemma list_all2_last:
  "list_all2 P w x \<Longrightarrow> w \<noteq> [] \<Longrightarrow> x \<noteq> [] \<and> P (last w) (last x)"
proof (induction w x rule: list_all2_induct)
  case Nil
  then show ?case by simp
next
  case (Cons a w b x)
  then show ?case
    by (cases w) (auto simp: list_all2_Cons1)
qed

lemma ends_ok_Str:
  assumes "w \<noteq> []" and "\<not> char_eq ic (last w) c"
  shows "ends_ok c (lang ic (Str w))"
  using assms list_all2_last [of "char_eq ic" w]
  by (auto simp: ends_ok_def lang.simps)

lemma ends_ok_Plus_Cls:
  assumes "\<not> in_class C c"
  shows "ends_ok c (lang ic (Plus (Cls C)))"
  using assms by (auto simp: ends_ok_def lang_Plus_Cls)

lemma ends_ok_Cls:
  assumes "\<not> in_class C c"
  shows "ends_ok c (lang ic (Cls C))"
  using assms by (auto simp: ends_ok_def lang.simps)

lemma secrets_ends: "ends_ok CR (lang True secrets_source)"
  unfolding secrets_source_def seqs.simps
  by (intro ends_ok_Seq ends_ok_Cls) (simp add: quotes_def CR_def)

lemma pin_ends: "ends_ok CR (lang True pin_source)"
  unfolding pin_source_def seqs.simps alts.simps
  by (intro ends_ok_Seq ends_ok_Group ends_ok_Alt ends_ok_Str ends_ok_Plus_Cls)
    (simp_all add: js_def CR_def char_eq_def canonicalize_def isDigit_def)

lemma injection_ends: "ends_ok CR (lang False injection_source)"
  unfolding injection_source_def seqs.simps
  by (intro ends_ok_Seq ends_ok_Str) (simp_all add: js_def CR_def char_eq_def)

lemma secrets_snoc:
  "fst (test (pattern no_plaintext_secrets) (l @ [CR])) =
   fst (test (pattern no_plaintext_secrets) l)"
  by (rule plain_test_snoc)
    (simp_all add: no_plaintext_secrets_def regexp_literal_def secrets_ends,
      simp add: secrets_source_def)

lemma pin_snoc:
  "fst (test (pattern pin_actions_versions) (l @ [CR])) =
   fst (test (pattern pin_actions_versions) l)"
  by (rule plain_test_snoc)
    (simp_all add: pin_actions_versions_def regexp_literal_def pin_ends,
      simp add: pin_source_def)

lemma injection_snoc:
  "fst (test (pattern script_injection) (l @ [CR])) =
   fst (test (pattern script_injection) l)"
  by (rule plain_test_snoc)
    (simp_all add: script_injection_def regexp_literal_def injection_ends,
      simp add: injection_source_def)

section \<open>Carriage returns\<close>

lemma crlf_only_followed:
  "crlf_only src \<Longrightarrow> src = p @ CR # s \<Longrightarrow> \<exists>s'. s = LF # s'"
proof (induction src arbitrary: p rule: crlf_only.induct)
  case 1
  then show ?case by simp
next
  case (2 c)
  then show ?case by (cases p) auto
next
  case (3 c d cs)
  show ?case
  proof (cases p)
    case Nil
    with "3.prems" show ?thesis by auto
  next
    case (Cons a p')
    from "3.prems"(1) have "crlf_only (d # cs)"
      by simp
    moreover from "3.prems"(2) Cons have "d # cs = p' @ CR # s"
      by simp
    ultimately show ?thesis by (rule "3.IH")
  qed
qed

lemma split_from_filter:
  assumes "P LF"
  shows "split_from (filter P cur) (filter P src) = map (filter P) (split_from cur src)"
proof (induction src arbitrary: cur)
  case Nil
  show ?case by simp
next
  case (Cons c cs)
  show ?case
  proof (cases "c = LF")
    case True
    with assms Cons.IH [of "[]"] show ?thesis by simp
  next
    case False
    show ?thesis
    proof (cases "P c")
      case True
      with False Cons.IH [of "cur @ [c]"] show ?thesis by simp
    next
      case no: False
      with False Cons.IH [of "cur @ [c]"] show ?thesis by simp
    qed
  qed
qed

lemma split_lines_filter:
  "split_lines (filter (\<lambda>c. c \<noteq> CR) src) = map (filter (\<lambda>c. c \<noteq> CR)) (split_lines src)"
  using split_from_filter [of "\<lambda>c. c \<noteq> CR" "[]" src]
  by (simp add: split_lines_def LF_def CR_def)

lemma split_from_line:
  assumes "LF \<notin> set cur" and "l \<in> set (split_from cur src)"
  shows "LF \<notin> set l \<and> (\<exists>p s. cur @ src = p @ l @ s)"
  using assms
proof (induction src arbitrary: cur)
  case Nil
  then have "l = cur" by simp
  with Nil.prems(1) have "LF \<notin> set l \<and> cur @ [] = [] @ l @ []" by simp
  then show ?case by blast
next
  case (Cons c cs)
  show ?case
  proof (cases "c = LF")
    case True
    with Cons.prems(2) have "l = cur \<or> l \<in> set (split_from [] cs)" by simp
    then show ?thesis
    proof
      assume "l = cur"
      with Cons.prems(1) have "LF \<notin> set l \<and> cur @ c # cs = [] @ l @ (c # cs)" by simp
      then show ?thesis by blast
    next
      assume "l \<in> set (split_from [] cs)"
      with Cons.IH [of "[]"] obtain p s where "LF \<notin> set l" "cs = p @ l @ s"
        by auto
      then have "LF \<notin> set l \<and> cur @ c # cs = (cur @ c # p) @ l @ s" by simp
      then show ?thesis by blast
    qed
  next
    case False
    with Cons.prems have "LF \<notin> set (cur @ [c])" and "l \<in> set (split_from (cur @ [c]) cs)"
      by simp_all
    with Cons.IH [of "cur @ [c]"] obtain p s where "LF \<notin> set l" "(cur @ [c]) @ cs = p @ l @ s"
      by blast
    then have "LF \<notin> set l \<and> cur @ c # cs = p @ l @ s" by simp
    then show ?thesis by blast
  qed
qed

lemma line_carriage_return:
  assumes G: "\<forall>p s. src = p @ CR # s \<longrightarrow> (\<exists>s'. s = LF # s')"
    and l: "l \<in> set (split_lines src)"
  shows "CR \<notin> set (butlast l)"
proof
  assume "CR \<in> set (butlast l)"
  then obtain a b where ab: "butlast l = a @ CR # b"
    by (auto simp: in_set_conv_decomp)
  then have "l \<noteq> []" by auto
  then have "l = butlast l @ [last l]" by simp
  then obtain z where l': "l = a @ CR # b @ [z]"
    using ab by simp
  from split_from_line [of "[]" l src] l obtain p s where
    nl: "LF \<notin> set l" and t: "src = p @ l @ s"
    by (auto simp: split_lines_def)
  from t l' have "src = (p @ a) @ CR # (b @ [z] @ s)" by simp
  with G obtain s' where "b @ [z] @ s = LF # s'" by blast
  then have "LF \<in> set (b @ [z])"
    by (cases b) auto
  with l' nl show False by auto
qed

lemma trim_snoc_CR: "trim (l @ [CR]) = trim l"
proof -
  have ws: "isWhiteSpace CR"
    by (simp add: isWhiteSpace_def CR_def)
  show ?thesis
  proof (cases "\<forall>c\<in>set l. isWhiteSpace c")
    case True
    then have 1: "dropWhile isWhiteSpace l = []"
      by simp
    from True ws have 2: "dropWhile isWhiteSpace (l @ [CR]) = []"
      by (simp add: dropWhile_append)
    show ?thesis
      by (simp add: trim_def 1 2)
  next
    case False
    then have 1: "dropWhile isWhiteSpace (l @ [CR]) = dropWhile isWhiteSpace l @ [CR]"
      by (simp add: dropWhile_append)
    show ?thesis
      by (simp add: trim_def 1 ws)
  qed
qed

lemma line_findings_snoc_CR:
  "line_findings securityRules fn n (l @ [CR]) = line_findings securityRules fn n l"
  by (simp add: line_findings_def securityRules_def make_issue_def trim_snoc_CR
      secrets_snoc pin_snoc third_party_snoc injection_snoc)

lemma line_findings_filter_CR:
  assumes "CR \<notin> set (butlast l)"
  shows "line_findings securityRules fn n (filter (\<lambda>c. c \<noteq> CR) l) =
         line_findings securityRules fn n l"
proof (cases l rule: rev_cases)
  case Nil
  then show ?thesis by simp
next
  case (snoc l' c)
  with assms have f: "filter (\<lambda>c. c \<noteq> CR) l' = l'"
    by (auto simp: filter_id_conv)
  show ?thesis
  proof (cases "c = CR")
    case True
    with snoc f show ?thesis by (simp add: line_findings_snoc_CR)
  next
    case False
    with snoc f show ?thesis by simp
  qed
qed

lemma concat_enumerate_cong:
  assumes "\<forall>ln\<in>set lns. \<forall>k. F k (f ln) = F k ln"
  shows "concat (map (\<lambda>(i, ln). F (Suc i) ln) (enumerate j (map f lns))) =
         concat (map (\<lambda>(i, ln). F (Suc i) ln) (enumerate j lns))"
  using assms by (induction lns arbitrary: j) simp_all

text \<open>
  C8.  When each carriage return of a text is immediately followed by a line feed,
  the text without its carriage returns has the same findings: the same lines, rules,
  severities and trimmed texts, in the same order.
\<close>

theorem carriage_returns:
  assumes "\<forall>p s. src = p @ CR # s \<longrightarrow> (\<exists>s'. s = LF # s')"
  shows "fst (analyzeWorkflow securityRules fn (filter (\<lambda>c. c \<noteq> CR) src)) =
         fst (analyzeWorkflow securityRules fn src)"
proof -
  have "\<forall>ln\<in>set (split_lines src). \<forall>k.
      line_findings securityRules fn k (filter (\<lambda>c. c \<noteq> CR) ln) =
      line_findings securityRules fn k ln"
    using line_carriage_return [OF assms] by (simp add: line_findings_filter_CR)
  from concat_enumerate_cong [where F = "line_findings securityRules fn", OF this, of 0]
  show ?thesis
    by (simp add: analyzeWorkflow_stateless [OF stateless_securityRules] file_findings_def
        split_lines_filter)
qed

theorem carriage_returns_witness:
  "fst (analyzeWorkflow securityRules (js ''ci.yml'')
         (js ''uses: a@1'' @ [CR, LF] @ js ''uses: a@1'' @ [CR, LF])) =
   fst (analyzeWorkflow securityRules (js ''ci.yml'')
         (js ''uses: a@1'' @ [LF] @ js ''uses: a@1'' @ [LF]))"
proof -
  let ?text = "js ''uses: a@1'' @ [CR, LF] @ js ''uses: a@1'' @ [CR, LF]"
  have "crlf_only ?text"
    by (simp add: js_def CR_def LF_def)
  then have "\<forall>p s. ?text = p @ CR # s \<longrightarrow> (\<exists>s'. s = LF # s')"
    using crlf_only_followed by blast
  from carriage_returns [OF this, of "js ''ci.yml''"] show ?thesis
    by (simp add: js_def CR_def LF_def)
qed

section \<open>The rule of hardcoded secrets\<close>

lemma lang_Seq_iff:
  "x \<in> lang ic (Seq a b) \<longleftrightarrow> (\<exists>y z. x = y @ z \<and> y \<in> lang ic a \<and> z \<in> lang ic b)"
  by (auto simp: lang.simps)

lemma canonicalize_colon: "canonicalize c = canonicalize 58 \<longleftrightarrow> c = 58"
proof -
  have "c - 32 \<noteq> 58" if "97 \<le> c" "c \<le> 122"
    using that by unat_arith
  then show ?thesis
    by (auto simp: canonicalize_def)
qed

lemma lang_colon: "lang True (Str (js '':'')) = {js '':''}"
proof -
  have "map canonicalize x = map canonicalize (js '':'') \<longleftrightarrow> x = js '':''" for x
    by (cases x) (auto simp: js_def canonicalize_colon)
  then show ?thesis
    by (simp add: lang_Str_ignore_case)
qed

lemma lang_quote: "lang ic (Cls (OneOf quotes)) = {[q] | q. q \<in> set quotes}"
  by (simp add: lang.simps)

lemma lang_keywords:
  "k \<in> lang True (Group (Alt (Str a) (Alt (Str b) (Alt (Str c) (Str d))))) \<longleftrightarrow>
     map canonicalize k = map canonicalize a \<or> map canonicalize k = map canonicalize b \<or>
     map canonicalize k = map canonicalize c \<or> map canonicalize k = map canonicalize d"
  by (simp add: lang.simps(4,7) lang_Str_ignore_case)

lemma secrets_lang:
  "x \<in> lang True secrets_source \<longleftrightarrow>
     (\<exists>k ws q1 body q2.
        x = k @ js '':'' @ ws @ [q1] @ body @ [q2] \<and>
        (map canonicalize k = map canonicalize (js ''password'') \<or>
         map canonicalize k = map canonicalize (js ''token'') \<or>
         map canonicalize k = map canonicalize (js ''key'') \<or>
         map canonicalize k = map canonicalize (js ''secret'')) \<and>
        (\<forall>c\<in>set ws. isWhiteSpace c) \<and>
        q1 \<in> set quotes \<and> body \<noteq> [] \<and> (\<forall>c\<in>set body. c \<notin> set quotes) \<and>
        q2 \<in> set quotes)"
  (is "?L \<longleftrightarrow> ?R")
proof -
  have "?L \<longleftrightarrow>
    (\<exists>k z1. x = k @ z1 \<and>
       (map canonicalize k = map canonicalize (js ''password'') \<or>
        map canonicalize k = map canonicalize (js ''token'') \<or>
        map canonicalize k = map canonicalize (js ''key'') \<or>
        map canonicalize k = map canonicalize (js ''secret'')) \<and>
       (\<exists>c z2. z1 = c @ z2 \<and> c = js '':'' \<and>
          (\<exists>ws z3. z2 = ws @ z3 \<and> (\<forall>c\<in>set ws. isWhiteSpace c) \<and>
             (\<exists>q1s z4. z3 = q1s @ z4 \<and> (\<exists>q. q1s = [q] \<and> q \<in> set quotes) \<and>
                (\<exists>body e. z4 = body @ e \<and> (body \<noteq> [] \<and> (\<forall>c\<in>set body. c \<notin> set quotes)) \<and>
                   (\<exists>q. e = [q] \<and> q \<in> set quotes))))))"
    unfolding secrets_source_def seqs.simps alts.simps
    by (simp only: lang_Seq_iff lang_keywords lang_colon lang_quote lang_Star_Cls
        lang_Plus_Cls mem_Collect_eq singleton_iff in_class.simps)
  also have "\<dots> \<longleftrightarrow> ?R"
  proof
    assume "\<exists>k z1. x = k @ z1 \<and>
       (map canonicalize k = map canonicalize (js ''password'') \<or>
        map canonicalize k = map canonicalize (js ''token'') \<or>
        map canonicalize k = map canonicalize (js ''key'') \<or>
        map canonicalize k = map canonicalize (js ''secret'')) \<and>
       (\<exists>c z2. z1 = c @ z2 \<and> c = js '':'' \<and>
          (\<exists>ws z3. z2 = ws @ z3 \<and> (\<forall>c\<in>set ws. isWhiteSpace c) \<and>
             (\<exists>q1s z4. z3 = q1s @ z4 \<and> (\<exists>q. q1s = [q] \<and> q \<in> set quotes) \<and>
                (\<exists>body e. z4 = body @ e \<and> (body \<noteq> [] \<and> (\<forall>c\<in>set body. c \<notin> set quotes)) \<and>
                   (\<exists>q. e = [q] \<and> q \<in> set quotes)))))"
    then obtain k z1 c z2 ws z3 q1s z4 body e q1 q2 where
      "x = k @ z1"
      "map canonicalize k = map canonicalize (js ''password'') \<or>
        map canonicalize k = map canonicalize (js ''token'') \<or>
        map canonicalize k = map canonicalize (js ''key'') \<or>
        map canonicalize k = map canonicalize (js ''secret'')"
      "z1 = c @ z2" "c = js '':''" "z2 = ws @ z3"
      "\<forall>c\<in>set ws. isWhiteSpace c" "z3 = q1s @ z4" "q1s = [q1]" "q1 \<in> set quotes"
      "z4 = body @ e" "body \<noteq> []"
      "\<forall>c\<in>set body. c \<notin> set quotes" "e = [q2]" "q2 \<in> set quotes"
      by (elim exE conjE)
    then have "x = k @ js '':'' @ ws @ [q1] @ body @ [q2] \<and>
        (map canonicalize k = map canonicalize (js ''password'') \<or>
         map canonicalize k = map canonicalize (js ''token'') \<or>
         map canonicalize k = map canonicalize (js ''key'') \<or>
         map canonicalize k = map canonicalize (js ''secret'')) \<and>
        (\<forall>c\<in>set ws. isWhiteSpace c) \<and>
        q1 \<in> set quotes \<and> body \<noteq> [] \<and> (\<forall>c\<in>set body. c \<notin> set quotes) \<and>
        q2 \<in> set quotes"
      by simp
    then show ?R
      by - (rule exI [of _ k], rule exI [of _ ws], rule exI [of _ q1], rule exI [of _ body],
          rule exI [of _ q2], assumption)
  next
    assume ?R
    then obtain k ws q1 body q2 where x: "x = k @ js '':'' @ ws @ [q1] @ body @ [q2]"
      and k: "map canonicalize k = map canonicalize (js ''password'') \<or>
        map canonicalize k = map canonicalize (js ''token'') \<or>
        map canonicalize k = map canonicalize (js ''key'') \<or>
        map canonicalize k = map canonicalize (js ''secret'')"
      and rest: "\<forall>c\<in>set ws. isWhiteSpace c" "q1 \<in> set quotes" "body \<noteq> []"
        "\<forall>c\<in>set body. c \<notin> set quotes" "q2 \<in> set quotes"
      by (elim exE conjE)
    show "\<exists>k z1. x = k @ z1 \<and>
       (map canonicalize k = map canonicalize (js ''password'') \<or>
        map canonicalize k = map canonicalize (js ''token'') \<or>
        map canonicalize k = map canonicalize (js ''key'') \<or>
        map canonicalize k = map canonicalize (js ''secret'')) \<and>
       (\<exists>c z2. z1 = c @ z2 \<and> c = js '':'' \<and>
          (\<exists>ws z3. z2 = ws @ z3 \<and> (\<forall>c\<in>set ws. isWhiteSpace c) \<and>
             (\<exists>q1s z4. z3 = q1s @ z4 \<and> (\<exists>q. q1s = [q] \<and> q \<in> set quotes) \<and>
                (\<exists>body e. z4 = body @ e \<and> (body \<noteq> [] \<and> (\<forall>c\<in>set body. c \<notin> set quotes)) \<and>
                   (\<exists>q. e = [q] \<and> q \<in> set quotes)))))"
      apply (rule exI [of _ k], rule exI [of _ "js '':'' @ ws @ [q1] @ body @ [q2]"])
      apply (intro conjI x k)
      apply (rule exI [of _ "js '':''"], rule exI [of _ "ws @ [q1] @ body @ [q2]"])
      apply (intro conjI refl)
      apply (rule exI [of _ ws], rule exI [of _ "[q1] @ body @ [q2]"])
      apply (intro conjI refl rest)
      apply (rule exI [of _ "[q1]"], rule exI [of _ "body @ [q2]"])
      apply (intro conjI refl)
       apply (rule exI [of _ q1], intro conjI refl rest)
      apply (rule exI [of _ body], rule exI [of _ "[q2]"])
      apply (intro conjI refl rest)
      apply (rule exI [of _ q2], intro conjI refl rest)
      done
  qed
  finally show ?thesis .
qed

lemma secrets_test:
  "fst (test (pattern no_plaintext_secrets) ln) \<longleftrightarrow> hardcoded_secret ln"
proof -
  have "fst (test (pattern no_plaintext_secrets) ln) \<longleftrightarrow>
      (\<exists>p x t. ln = p @ x @ t \<and> x \<in> lang True secrets_source)"
    by (subst plain_test_iff)
      (simp_all add: no_plaintext_secrets_def regexp_literal_def, simp add: secrets_source_def)
  also have "\<dots> \<longleftrightarrow> hardcoded_secret ln"
  proof
    assume "\<exists>p x t. ln = p @ x @ t \<and> x \<in> lang True secrets_source"
    then obtain p x t where "ln = p @ x @ t" "x \<in> lang True secrets_source"
      by (elim exE conjE)
    then obtain k ws q1 body q2 where
      "ln = p @ k @ js '':'' @ ws @ [q1] @ body @ [q2] @ t \<and>
        (map canonicalize k = map canonicalize (js ''password'') \<or>
         map canonicalize k = map canonicalize (js ''token'') \<or>
         map canonicalize k = map canonicalize (js ''key'') \<or>
         map canonicalize k = map canonicalize (js ''secret'')) \<and>
        (\<forall>c\<in>set ws. isWhiteSpace c) \<and>
        q1 \<in> set quotes \<and> body \<noteq> [] \<and> (\<forall>c\<in>set body. c \<notin> set quotes) \<and>
        q2 \<in> set quotes"
      unfolding secrets_lang by (elim exE conjE) simp
    then show "hardcoded_secret ln"
      unfolding hardcoded_secret_def
      by - (rule exI [of _ p], rule exI [of _ k], rule exI [of _ ws], rule exI [of _ q1],
          rule exI [of _ body], rule exI [of _ q2], rule exI [of _ t], assumption)
  next
    assume "hardcoded_secret ln"
    then obtain p k ws q1 body q2 t where
      ln: "ln = p @ k @ js '':'' @ ws @ [q1] @ body @ [q2] @ t"
      and c: "map canonicalize k = map canonicalize (js ''password'') \<or>
         map canonicalize k = map canonicalize (js ''token'') \<or>
         map canonicalize k = map canonicalize (js ''key'') \<or>
         map canonicalize k = map canonicalize (js ''secret'')"
        "\<forall>c\<in>set ws. isWhiteSpace c" "q1 \<in> set quotes" "body \<noteq> []"
        "\<forall>c\<in>set body. c \<notin> set quotes" "q2 \<in> set quotes"
      unfolding hardcoded_secret_def by (elim exE conjE)
    let ?x = "k @ js '':'' @ ws @ [q1] @ body @ [q2]"
    have "?x \<in> lang True secrets_source"
      unfolding secrets_lang
      by (rule exI [of _ k], rule exI [of _ ws], rule exI [of _ q1], rule exI [of _ body],
          rule exI [of _ q2]) (intro conjI refl c)
    moreover from ln have "ln = p @ ?x @ t"
      by simp
    ultimately show "\<exists>p x t. ln = p @ x @ t \<and> x \<in> lang True secrets_source"
      by blast
  qed
  finally show ?thesis .
qed

lemma no_line_feed: "LF \<notin> set s \<Longrightarrow> split_lines s = [s]"
proof -
  have "LF \<notin> set s \<Longrightarrow> split_from cur s = [cur @ s]" for cur
    by (induction s arbitrary: cur) auto
  then show "LF \<notin> set s \<Longrightarrow> split_lines s = [s]"
    by (simp add: split_lines_def)
qed

lemma single_line_findings:
  assumes "LF \<notin> set s"
  shows "fst (analyzeWorkflow securityRules fn s) = line_findings securityRules fn 1 s"
  by (simp add: analyzeWorkflow_stateless [OF stateless_securityRules] file_findings_def
      no_line_feed [OF assms] enumerate_eq_zip)

lemma key_id_secrets: "\<not> fst (test (pattern no_plaintext_secrets) key_id_line)"
  by code_simp

lemma key_id_pin: "\<not> fst (test (pattern pin_actions_versions) key_id_line)"
  by code_simp

lemma key_id_third_party: "\<not> fst (test (pattern third_party_action_review) key_id_line)"
  by code_simp

lemma key_id_injection: "\<not> fst (test (pattern script_injection) key_id_line)"
  by code_simp

lemma quoted_line_secret: "hardcoded_secret quoted_line"
  unfolding hardcoded_secret_def
  by (rule exI [of _ "js ''api_''"], rule exI [of _ "js ''KEY''"], rule exI [of _ "js '' ''"],
      rule exI [of _ 34], rule exI [of _ "js ''abc''"], rule exI [of _ 34], rule exI [of _ "[]"])
    (simp add: quoted_line_def js_def canonicalize_def isWhiteSpace_def quotes_def)

text \<open>
  C4, as amended.  The rule \<open>no-plaintext-secrets\<close>, of severity critical, has a
  finding for a line exactly when the line holds one of the words \<open>password\<close>,
  \<open>token\<close>, \<open>key\<close>, \<open>secret\<close>, its letters compared without case,
  immediately followed by a colon, any number of whitespace characters, a quote
  character, one or more characters that are no quote characters, and a quote
  character.  The word has to end the name of the key: for the line
  \<open>key_id: "abc"\<close>, whose key contains \<open>key\<close>, there is no finding.
\<close>

theorem secrets_rule:
  assumes "i < length (split_lines body)"
  shows "filter (\<lambda>f. line f = i + 1 \<and> rule f = js ''no-plaintext-secrets'')
           (fst (analyzeWorkflow securityRules fn body)) =
         (if hardcoded_secret (split_lines body ! i)
          then [make_issue fn (i + 1) no_plaintext_secrets (split_lines body ! i)] else []) \<and>
         severity (make_issue fn (i + 1) no_plaintext_secrets (split_lines body ! i)) = Critical"
proof -
  have m: "no_plaintext_secrets \<in> set securityRules"
    by (simp add: securityRules_def)
  have i: "rule_id no_plaintext_secrets = js ''no-plaintext-secrets''"
    and s: "rule_severity no_plaintext_secrets = Critical"
    by (simp_all add: no_plaintext_secrets_def)
  have "filter (\<lambda>f. line f = i + 1 \<and> rule f = js ''no-plaintext-secrets'')
           (fst (analyzeWorkflow securityRules fn body)) =
        filter (\<lambda>f. rule f = rule_id no_plaintext_secrets)
          (filter (\<lambda>f. line f = i + 1) (fst (analyzeWorkflow securityRules fn body)))"
    by (simp add: i conj_commute)
  also have "\<dots> = filter (\<lambda>f. rule f = rule_id no_plaintext_secrets)
      (line_findings securityRules fn (i + 1) (split_lines body ! i))"
    by (simp only: findings_of_line [OF assms])
  also have "\<dots> = (if hardcoded_secret (split_lines body ! i)
          then [make_issue fn (i + 1) no_plaintext_secrets (split_lines body ! i)] else [])"
    by (simp only: filter_rule_line_findings [OF rule_ids_distinct m] secrets_test)
  finally show ?thesis
    by (simp add: make_issue_def s)
qed

theorem secrets_rule_counterexample:
  \<open>fst (analyzeWorkflow securityRules (js ''ci.yml'') (js ''key_id: "abc"'')) = []\<close>
proof -
  have "LF \<notin> set key_id_line"
    by (simp add: key_id_line_def js_def LF_def)
  from single_line_findings [OF this] show ?thesis
    by (simp add: line_findings_def securityRules_def key_id_secrets key_id_pin
        key_id_third_party key_id_injection key_id_line_def [symmetric])
qed

theorem secrets_rule_witness:
  \<open>filter (\<lambda>f. line f = 1 \<and> rule f = js ''no-plaintext-secrets'')
     (fst (analyzeWorkflow securityRules (js ''ci.yml'') (js ''api_KEY: "abc"''))) =
   [make_issue (js ''ci.yml'') 1 no_plaintext_secrets (js ''api_KEY: "abc"'')]\<close>
proof -
  have "LF \<notin> set quoted_line"
    by (simp add: quoted_line_def js_def LF_def)
  then have l: "split_lines quoted_line = [quoted_line]"
    by (rule no_line_feed)
  then have "0 < length (split_lines quoted_line)"
    by simp
  from secrets_rule [OF this, of "js ''ci.yml''"] show ?thesis
    by (simp add: l quoted_line_secret quoted_line_def [symmetric])
qed

section \<open>The rules of actions at the examples of the specification\<close>

lemma v3_secrets: "\<not> fst (test (pattern no_plaintext_secrets) checkout_v3)"
  by code_simp

lemma v3_pin: "\<not> fst (test (pattern pin_actions_versions) checkout_v3)"
  by code_simp

lemma v3_third_party: "fst (test (pattern third_party_action_review) checkout_v3)"
  by code_simp

lemma v3_injection: "\<not> fst (test (pattern script_injection) checkout_v3)"
  by code_simp



text \<open>A commit identifier that starts with a digit is taken for a numeric tag.\<close>

lemma digit_sha_pin:
  "fst (test (pattern pin_actions_versions) (js ''uses: actions/checkout@1a2b3c4d5e6f''))"
  by code_simp

text \<open>
  C1.  For the file with the one line \<open>uses: actions/checkout@v3\<close> the scan
  has a finding of the rule \<open>third-party-action-review\<close>, and no other: the
  whitespace before the reference can be left to the lookahead, which then does not see
  \<open>actions/\<close>.
\<close>

theorem first_party_action_reported:
  "fst (analyzeWorkflow securityRules (js ''ci.yml'') (js ''uses: actions/checkout@v3'')) =
     [make_issue (js ''ci.yml'') 1 third_party_action_review (js ''uses: actions/checkout@v3'')]"
proof -
  have "LF \<notin> set checkout_v3"
    by (simp add: checkout_v3_def js_def LF_def)
  from single_line_findings [OF this] show ?thesis
    by (simp add: line_findings_def securityRules_def v3_secrets v3_pin v3_third_party
        v3_injection checkout_v3_def [symmetric])
qed



end
